theory Spec2Isabelle
  imports Main "HOL-Library.Word" "HOL-Library.Multiset"
begin

section \<open>Data model\<close>

text \<open>
  The file under verification is \<^verbatim>\<open>bgls/bgls.go\<close>. It imports package \<^verbatim>\<open>curves\<close>,
  whose three interfaces (\<^verbatim>\<open>CurveSystem\<close>, \<^verbatim>\<open>Point\<close>, \<^verbatim>\<open>PointT\<close>) are not defined in
  that file; they are a parameter of every definition below.

  A Go value of interface type \<^verbatim>\<open>Point\<close> or \<^verbatim>\<open>PointT\<close>, or of pointer type
  \<^verbatim>\<open>*big.Int\<close>, may be \<^verbatim>\<open>nil\<close>: it is an \<open>option\<close>, \<open>None\<close> being \<^verbatim>\<open>nil\<close>.
  Calling a method on \<^verbatim>\<open>nil\<close> is a run-time panic, so the receiver of a method is
  a proper element and every call site does the case distinction.
\<close>

type_synonym byte = "8 word"

type_synonym 'p Point = "'p option"

type_synonym 't PointT = "'t option"

type_synonym bigInt = "int option"

text \<open>
  The methods of the three interfaces that \<^verbatim>\<open>bgls.go\<close> calls. \<^verbatim>\<open>Add\<close> and \<^verbatim>\<open>Pair\<close>
  return a pair \<^verbatim>\<open>(Point, bool)\<close>; the source discards the flag everywhere and keeps
  the first component, whatever it is.
\<close>

record ('p, 't) CurveSystem =
  GetG1Order :: int
  GetG2 :: "'p Point"
  HashToG1 :: "byte list \<Rightarrow> 'p Point"
  Pair :: "'p Point \<Rightarrow> 'p Point \<Rightarrow> 't PointT \<times> bool"
  Add :: "'p \<Rightarrow> 'p Point \<Rightarrow> 'p Point \<times> bool"
  Copy :: "'p \<Rightarrow> 'p Point"
  Mul :: "'p \<Rightarrow> bigInt \<Rightarrow> 'p Point"
  AddT :: "'t \<Rightarrow> 't PointT \<Rightarrow> 't PointT \<times> bool"
  EqualsT :: "'t \<Rightarrow> 't PointT \<Rightarrow> bool"

text \<open>
  How a call can end without a value: a method call on \<^verbatim>\<open>nil\<close>, an index out of
  range (both are Go panics), or a channel receive that no goroutine will ever serve.
\<close>

datatype error = NilDereference | IndexOutOfRange | BlocksForever

section \<open>Goroutines and unbuffered channels\<close>

text \<open>
  Every goroutine of \<^verbatim>\<open>bgls.go\<close> computes one value and sends it once on an
  unbuffered channel. Which of the waiting senders a receive serves is up to the Go
  scheduler: it is the parameter \<open>schedule\<close>, a list of choices read one per receive
  (the choice \<open>j\<close> among \<open>n\<close> waiting senders is sender \<open>j mod n\<close>; an exhausted
  schedule chooses sender \<open>0\<close>). Every schedule is a possible run and every run is some
  schedule, so a property of the Go function is a property for all schedules.
\<close>

type_synonym schedule = "nat list"

fun recv :: "schedule \<Rightarrow> 'a list \<Rightarrow> error + ('a \<times> 'a list \<times> schedule)" where
  "recv s [] = Inl BlocksForever"
| "recv s (x # xs) =
     (let k = (case s of [] \<Rightarrow> 0 | j # _ \<Rightarrow> j mod length (x # xs))
      in Inr ((x # xs) ! k, take k (x # xs) @ drop (Suc k) (x # xs), tl s))"

declare recv.simps [simp del]

text \<open>
  The values a batch of goroutines sends. A goroutine that panics takes the process
  down; the caller is then still waiting for that goroutine's value.
\<close>

fun sends :: "(error + 'a) list \<Rightarrow> error + 'a list" where
  "sends [] = Inr []"
| "sends (Inl e # gs) = Inl e"
| "sends (Inr v # gs) = (case sends gs of Inl e \<Rightarrow> Inl e | Inr vs \<Rightarrow> Inr (v # vs))"

section \<open>Keys and signatures\<close>

definition LoadPublicKey :: "('p, 't) CurveSystem \<Rightarrow> bigInt \<Rightarrow> error + 'p Point" where
  "LoadPublicKey curve sk =
     (case GetG2 curve of
        None \<Rightarrow> Inl NilDereference
      | Some g \<Rightarrow> Inr (Mul curve g sk))"

definition SignCustHash ::
  "('p, 't) CurveSystem \<Rightarrow> bigInt \<Rightarrow> byte list \<Rightarrow> (byte list \<Rightarrow> 'p Point) \<Rightarrow> error + 'p Point" where
  "SignCustHash curve sk m hash =
     (case hash m of
        None \<Rightarrow> Inl NilDereference
      | Some h \<Rightarrow> Inr (Mul curve h sk))"

definition Sign :: "('p, 't) CurveSystem \<Rightarrow> bigInt \<Rightarrow> byte list \<Rightarrow> error + 'p Point" where
  "Sign curve sk m = SignCustHash curve sk m (HashToG1 curve)"

section \<open>Single verification\<close>

text \<open>The value \<^verbatim>\<open>concurrentPair\<close> sends down its channel.\<close>

definition concurrentPair :: "('p, 't) CurveSystem \<Rightarrow> 'p Point \<Rightarrow> 'p Point \<Rightarrow> 't PointT" where
  "concurrentPair curve pt key = fst (Pair curve pt key)"

definition concurrentMsgPair :: "('p, 't) CurveSystem \<Rightarrow> byte list \<Rightarrow> 'p Point \<Rightarrow> 't PointT" where
  "concurrentMsgPair curve msg key = concurrentPair curve (HashToG1 curve msg) key"

text \<open>
  Both goroutines send on the same channel; \<^verbatim>\<open>e1\<close> is whichever value arrives
  first. The parameter \<open>hash\<close> is not used by the source.
\<close>

definition VerifySingleSignatureCustHash ::
  "('p, 't) CurveSystem \<Rightarrow> schedule \<Rightarrow> 'p Point \<Rightarrow> byte list \<Rightarrow> 'p Point
     \<Rightarrow> (byte list \<Rightarrow> 'p Point) \<Rightarrow> error + bool" where
  "VerifySingleSignatureCustHash curve s pubKey msg sig hash =
     (case recv s [concurrentPair curve sig (GetG2 curve), concurrentMsgPair curve msg pubKey] of
        Inl e \<Rightarrow> Inl e
      | Inr (e1, pending, s') \<Rightarrow>
          (case recv s' pending of
             Inl e \<Rightarrow> Inl e
           | Inr (e2, _, _) \<Rightarrow>
               (case e1 of
                  None \<Rightarrow> Inl NilDereference
                | Some a \<Rightarrow> Inr (EqualsT curve a e2))))"

definition VerifySingleSignature ::
  "('p, 't) CurveSystem \<Rightarrow> schedule \<Rightarrow> 'p Point \<Rightarrow> byte list \<Rightarrow> 'p Point \<Rightarrow> error + bool" where
  "VerifySingleSignature curve s pubKey m sig =
     VerifySingleSignatureCustHash curve s pubKey m sig (HashToG1 curve)"

section \<open>Point aggregation\<close>

text \<open>The value \<^verbatim>\<open>concurrentAggregatePoints\<close> sends, or its panic.\<close>

definition concurrentAggregatePoints ::
  "('p, 't) CurveSystem \<Rightarrow> nat \<Rightarrow> 'p Point list \<Rightarrow> error + 'p Point" where
  "concurrentAggregatePoints curve start points =
     (if start \<ge> length points then Inl IndexOutOfRange
      else if start + 1 \<ge> length points then Inr (points ! start)
      else (case points ! start of
              None \<Rightarrow> Inl NilDereference
            | Some p \<Rightarrow> Inr (fst (Add curve p (points ! (start + 1))))))"

text \<open>
  \<^verbatim>\<open>for i := 0; i < len(points); i += 2 { go concurrentAggregatePoints(i, points, c); counter++ }\<close>:
  the goroutines started, in the order of their start; \<^verbatim>\<open>counter\<close> is their number.
\<close>

function goAggregate ::
  "('p, 't) CurveSystem \<Rightarrow> nat \<Rightarrow> 'p Point list \<Rightarrow> (error + 'p Point) list" where
  "goAggregate curve i points =
     (if i < length points
      then concurrentAggregatePoints curve i points # goAggregate curve (i + 2) points
      else [])"
  by pat_completeness auto
termination
  by (relation "measure (\<lambda>(curve, i, points). length points - i)") auto

declare goAggregate.simps [simp del]

text \<open>
  \<^verbatim>\<open>for i := 0; i < counter; i++ { aggPoint[i] = <-c }\<close>: the values are stored in
  the order of their arrival.
\<close>

function receiveInto ::
  "nat \<Rightarrow> nat \<Rightarrow> schedule \<Rightarrow> 'a list \<Rightarrow> 'a list \<Rightarrow> error + ('a list \<times> schedule)" where
  "receiveInto i counter s pending arr =
     (if i < counter
      then (case recv s pending of
              Inl e \<Rightarrow> Inl e
            | Inr (v, pending', s') \<Rightarrow>
                if i < length arr
                then receiveInto (i + 1) counter s' pending' (arr[i := v])
                else Inl IndexOutOfRange)
      else Inr (arr, s))"
  by pat_completeness auto
termination
  by (relation "measure (\<lambda>(i, counter, s, pending, arr). counter - i)") auto

declare receiveInto.simps [simp del]

text \<open>
  One round of the reduction: allocate the half-sized slice, start one goroutine per
  adjacent pair, collect their values. The source has this block twice, once before the
  loop (on \<^verbatim>\<open>points\<close>) and once as the loop body (on \<^verbatim>\<open>aggPoint\<close>).
\<close>

definition aggregateRound ::
  "('p, 't) CurveSystem \<Rightarrow> schedule \<Rightarrow> 'p Point list \<Rightarrow> error + ('p Point list \<times> schedule)" where
  "aggregateRound curve s points =
     (let aggPoint = replicate (length points div 2 + length points mod 2) None;
          goroutines = goAggregate curve 0 points;
          counter = length goroutines
      in case sends goroutines of
           Inl e \<Rightarrow> Inl e
         | Inr pending \<Rightarrow> receiveInto 0 counter s pending aggPoint)"

text \<open>
  The \<^verbatim>\<open>for { ... }\<close> loop. It has no bound in the source, so it is a partial function:
  \<open>None\<close> is a run that never leaves the loop.
\<close>

partial_function (option) aggregateLoop ::
  "('p, 't) CurveSystem \<Rightarrow> schedule \<Rightarrow> 'p Point list \<Rightarrow> (error + 'p Point) option" where
  "aggregateLoop curve s aggPoint =
     (if length aggPoint = 1 then Some (Inr (aggPoint ! 0))
      else (case aggregateRound curve s aggPoint of
              Inl e \<Rightarrow> Some (Inl e)
            | Inr (nxtAggPoint, s') \<Rightarrow> aggregateLoop curve s' nxtAggPoint))"

declare aggregateLoop.simps [code]

definition AggregatePoints ::
  "('p, 't) CurveSystem \<Rightarrow> schedule \<Rightarrow> 'p Point list \<Rightarrow> (error + 'p Point) option" where
  "AggregatePoints curve s points =
     (if length points = 2
      then (case points ! 0 of
              None \<Rightarrow> Some (Inl NilDereference)
            | Some p \<Rightarrow> Some (Inr (fst (Add curve p (points ! 1)))))
      else (case aggregateRound curve s points of
              Inl e \<Rightarrow> Some (Inl e)
            | Inr (aggPoint, s') \<Rightarrow> aggregateLoop curve s' aggPoint))"

section \<open>Aggregate verification\<close>

text \<open>
  \<^verbatim>\<open>string(msgs[i])\<close> copies the bytes, so the keys of \<^verbatim>\<open>hashmap\<close> are byte lists.
\<close>

fun containsDuplicateMessage_loop :: "(byte list \<rightharpoonup> bool) \<Rightarrow> byte list list \<Rightarrow> bool" where
  "containsDuplicateMessage_loop hashmap [] = False"
| "containsDuplicateMessage_loop hashmap (msg # msgs) =
     (if hashmap msg = None
      then containsDuplicateMessage_loop (hashmap(msg \<mapsto> True)) msgs
      else True)"

definition containsDuplicateMessage :: "byte list list \<Rightarrow> bool" where
  "containsDuplicateMessage msgs = containsDuplicateMessage_loop Map.empty msgs"

text \<open>
  \<^verbatim>\<open>for i := 1; i < len(msgs); i++ { e3 := <-c; e2, _ = e2.Add(e3) }\<close>
\<close>

function combineLoop ::
  "('p, 't) CurveSystem \<Rightarrow> nat \<Rightarrow> nat \<Rightarrow> schedule \<Rightarrow> 't PointT list \<Rightarrow> 't PointT
     \<Rightarrow> error + 't PointT" where
  "combineLoop curve i n s pending e2 =
     (if i < n
      then (case recv s pending of
              Inl e \<Rightarrow> Inl e
            | Inr (e3, pending', s') \<Rightarrow>
                (case e2 of
                   None \<Rightarrow> Inl NilDereference
                 | Some a \<Rightarrow> combineLoop curve (i + 1) n s' pending' (fst (AddT curve a e3))))
      else Inr e2)"
  by pat_completeness auto
termination
  by (relation "measure (\<lambda>(curve, i, n, s, pending, e2). n - i)") auto

declare combineLoop.simps [simp del]

text \<open>
  A run of the aggregate verifier: its result, and the number of pairing goroutines
  (\<^verbatim>\<open>go concurrentPair\<close>, \<^verbatim>\<open>go concurrentMsgPair\<close>) it has started. \<^verbatim>\<open>curve.Pair\<close> is
  called nowhere else, so a run that started none has evaluated no pairing.
\<close>

record 'a run =
  pairings :: nat
  outcome :: "error + 'a"

text \<open>
  Channel \<^verbatim>\<open>c2\<close> has one sender, so \<^verbatim>\<open>e1\<close> is that goroutine's value. In
  \<^verbatim>\<open>keys[i]\<close> the index is below \<^verbatim>\<open>len(msgs)\<close>, which the first test has made equal to
  \<^verbatim>\<open>len(keys)\<close>.
\<close>

definition verifyAggSig ::
  "('p, 't) CurveSystem \<Rightarrow> schedule \<Rightarrow> 'p Point \<Rightarrow> 'p Point list \<Rightarrow> byte list list \<Rightarrow> bool
     \<Rightarrow> bool run" where
  "verifyAggSig curve s aggsig keys msgs allowDuplicates =
     (if length keys \<noteq> length msgs then \<lparr>pairings = 0, outcome = Inr False\<rparr>
      else if \<not> allowDuplicates \<and> containsDuplicateMessage msgs
      then \<lparr>pairings = 0, outcome = Inr False\<rparr>
      else
        (let e1 = concurrentPair curve aggsig (GetG2 curve);
             pending = map (\<lambda>i. concurrentMsgPair curve (msgs ! i) (keys ! i)) [0..<length msgs]
         in \<lparr>pairings = 1 + length msgs,
             outcome =
               (case recv s pending of
                  Inl e \<Rightarrow> Inl e
                | Inr (e2, pending', s') \<Rightarrow>
                    (case combineLoop curve 1 (length msgs) s' pending' e2 of
                       Inl e \<Rightarrow> Inl e
                     | Inr e2' \<Rightarrow>
                         (case e1 of
                            None \<Rightarrow> Inl NilDereference
                          | Some a \<Rightarrow> Inr (EqualsT curve a e2'))))\<rparr>))"

definition VerifyAggregateSignature ::
  "('p, 't) CurveSystem \<Rightarrow> schedule \<Rightarrow> 'p Point \<Rightarrow> 'p Point list \<Rightarrow> byte list list \<Rightarrow> bool run" where
  "VerifyAggregateSignature curve s aggsig keys msgs = verifyAggSig curve s aggsig keys msgs False"

record 'p AggSig =
  keys :: "'p Point list"
  msgs :: "byte list list"
  sig :: "'p Point"

definition AggSig_Verify :: "'p AggSig \<Rightarrow> ('p, 't) CurveSystem \<Rightarrow> schedule \<Rightarrow> bool run" where
  "AggSig_Verify a curve s = VerifyAggregateSignature curve s (sig a) (keys a) (msgs a)"

section \<open>Point scaling\<close>

record 'p indexedPoint =
  index :: nat
  pt :: "'p Point"

definition concurrentScale ::
  "('p, 't) CurveSystem \<Rightarrow> 'p Point \<Rightarrow> bigInt \<Rightarrow> nat \<Rightarrow> error + 'p indexedPoint" where
  "concurrentScale curve key factor idx =
     (if factor = None
      then (case key of
              None \<Rightarrow> Inl NilDereference
            | Some k \<Rightarrow> Inr \<lparr>index = idx, pt = Copy curve k\<rparr>)
      else (case key of
              None \<Rightarrow> Inl NilDereference
            | Some k \<Rightarrow> Inr \<lparr>index = idx, pt = Mul curve k factor\<rparr>))"

text \<open>
  \<^verbatim>\<open>for i := 0; i < len(pts); i++ { pt := <-c; newKeys[pt.index] = pt.pt }\<close>
\<close>

function scaleReceive ::
  "nat \<Rightarrow> nat \<Rightarrow> schedule \<Rightarrow> 'p indexedPoint list \<Rightarrow> 'p Point list \<Rightarrow> error + 'p Point list" where
  "scaleReceive i n s pending newKeys =
     (if i < n
      then (case recv s pending of
              Inl e \<Rightarrow> Inl e
            | Inr (p, pending', s') \<Rightarrow>
                if index p < length newKeys
                then scaleReceive (i + 1) n s' pending' (newKeys[index p := pt p])
                else Inl IndexOutOfRange)
      else Inr newKeys)"
  by pat_completeness auto
termination
  by (relation "measure (\<lambda>(i, n, s, pending, newKeys). n - i)") auto

declare scaleReceive.simps [simp del]

text \<open>
  A slice may be \<^verbatim>\<open>nil\<close>, and \<^verbatim>\<open>scalePoints\<close> tests and returns \<^verbatim>\<open>nil\<close>, so its slices
  are optional lists; \<^verbatim>\<open>len\<close> of the \<^verbatim>\<open>nil\<close> slice is \<open>0\<close>.
\<close>

definition len :: "'a list option \<Rightarrow> nat" where
  "len xs = (case xs of None \<Rightarrow> 0 | Some l \<Rightarrow> length l)"

definition elems :: "'a list option \<Rightarrow> 'a list" where
  "elems xs = (case xs of None \<Rightarrow> [] | Some l \<Rightarrow> l)"

definition scalePoints ::
  "('p, 't) CurveSystem \<Rightarrow> schedule \<Rightarrow> 'p Point list option \<Rightarrow> bigInt list option
     \<Rightarrow> error + 'p Point list option" where
  "scalePoints curve s pts factors =
     (if factors = None then Inr pts
      else if len pts \<noteq> len factors then Inr None
      else
        (let newKeys = replicate (len pts) None;
             goroutines = map (\<lambda>i. concurrentScale curve (elems pts ! i) (elems factors ! i) i)
                              [0..<len pts]
         in case sends goroutines of
              Inl e \<Rightarrow> Inl e
            | Inr pending \<Rightarrow>
                (case scaleReceive 0 (len pts) s pending newKeys of
                   Inl e \<Rightarrow> Inl e
                 | Inr ks \<Rightarrow> Inr (Some ks))))"

section \<open>What the curve package is expected to provide\<close>

text \<open>
  The claims speak of sums in a group and of a bilinear pairing. These are properties of
  package \<^verbatim>\<open>curves\<close>, stated here for a set of elements (a real curve has points of
  two groups behind the one interface \<^verbatim>\<open>Point\<close>, and adds or pairs only the right ones).
  They are hypotheses of theorems, never assumed of every curve.

  A binary operation that is closed, commutative and associative on \<open>G\<close>:
\<close>

definition comm_semigroup_on :: "('a \<Rightarrow> 'a \<Rightarrow> 'a) \<Rightarrow> 'a set \<Rightarrow> bool" where
  "comm_semigroup_on f G \<longleftrightarrow>
     (\<forall>a \<in> G. \<forall>b \<in> G. f a b \<in> G \<and> f a b = f b a)
     \<and> (\<forall>a \<in> G. \<forall>b \<in> G. \<forall>c \<in> G. f (f a b) c = f a (f b c))"

text \<open>The sum of a non-empty list, taken from the left.\<close>

definition group_sum :: "('a \<Rightarrow> 'a \<Rightarrow> 'a) \<Rightarrow> 'a list \<Rightarrow> 'a" where
  "group_sum f xs = foldl f (hd xs) (tl xs)"

text \<open>
  One level of the reduction tree as a list function: adjacent pairs are added, a last
  element without a partner is carried over.
\<close>

fun pairUp :: "('a \<Rightarrow> 'a \<Rightarrow> 'a) \<Rightarrow> 'a list \<Rightarrow> 'a list" where
  "pairUp f (x # y # zs) = f x y # pairUp f zs"
| "pairUp f zs = zs"

text \<open>The point, respectively target element, that \<^verbatim>\<open>Add\<close> returns for two elements.\<close>

definition padd :: "('p, 't) CurveSystem \<Rightarrow> 'p \<Rightarrow> 'p \<Rightarrow> 'p" where
  "padd curve a b = the (fst (Add curve a (Some b)))"

definition tadd :: "('p, 't) CurveSystem \<Rightarrow> 't \<Rightarrow> 't \<Rightarrow> 't" where
  "tadd curve a b = the (fst (AddT curve a (Some b)))"

text \<open>
  On \<open>G\<close>, \<^verbatim>\<open>Add\<close> returns a point (not \<^verbatim>\<open>nil\<close>), and the points it returns make \<open>G\<close> a
  commutative semigroup; likewise for the target group.
\<close>

definition point_group :: "('p, 't) CurveSystem \<Rightarrow> 'p set \<Rightarrow> bool" where
  "point_group curve G \<longleftrightarrow>
     (\<forall>a \<in> G. \<forall>b \<in> G. fst (Add curve a (Some b)) \<noteq> None) \<and> comm_semigroup_on (padd curve) G"

definition target_group :: "('p, 't) CurveSystem \<Rightarrow> 't set \<Rightarrow> bool" where
  "target_group curve GT \<longleftrightarrow>
     (\<forall>a \<in> GT. \<forall>b \<in> GT. fst (AddT curve a (Some b)) \<noteq> None) \<and> comm_semigroup_on (tadd curve) GT"

text \<open>
  \<^verbatim>\<open>KeyGen\<close> draws the secret key with \<^verbatim>\<open>rand.Int(rand.Reader, curve.GetG1Order())\<close>,
  that is from \<open>0\<close> up to, not including, the order.
\<close>

definition valid_secret_key :: "('p, 't) CurveSystem \<Rightarrow> int \<Rightarrow> bool" where
  "valid_secret_key curve sk \<longleftrightarrow> 0 \<le> sk \<and> sk < GetG1Order curve"

text \<open>
  A pairing from \<open>G1\<close> and \<open>G2\<close> into \<open>GT\<close>: the generator is in \<open>G2\<close>, hashes are in
  \<open>G1\<close>, \<^verbatim>\<open>Mul\<close> by a valid scalar stays in the group, \<^verbatim>\<open>Pair\<close> returns a target element,
  a scalar moves from one argument of the pairing to the other, and \<^verbatim>\<open>Equals\<close> on the
  target group holds of an element and itself.
\<close>

definition bilinear_pairing :: "('p, 't) CurveSystem \<Rightarrow> 'p set \<Rightarrow> 'p set \<Rightarrow> 't set \<Rightarrow> bool" where
  "bilinear_pairing curve G1 G2 GT \<longleftrightarrow>
     (\<exists>g \<in> G2. GetG2 curve = Some g)
     \<and> (\<forall>m. \<exists>h \<in> G1. HashToG1 curve m = Some h)
     \<and> (\<forall>P \<in> G1. \<forall>a. valid_secret_key curve a \<longrightarrow> (\<exists>P' \<in> G1. Mul curve P (Some a) = Some P'))
     \<and> (\<forall>Q \<in> G2. \<forall>a. valid_secret_key curve a \<longrightarrow> (\<exists>Q' \<in> G2. Mul curve Q (Some a) = Some Q'))
     \<and> (\<forall>P \<in> G1. \<forall>Q \<in> G2. \<exists>e \<in> GT. fst (Pair curve (Some P) (Some Q)) = Some e)
     \<and> (\<forall>P \<in> G1. \<forall>Q \<in> G2. \<forall>a. valid_secret_key curve a \<longrightarrow>
            fst (Pair curve (Mul curve P (Some a)) (Some Q))
              = fst (Pair curve (Some P) (Mul curve Q (Some a))))
     \<and> (\<forall>e \<in> GT. EqualsT curve e (Some e))"

text \<open>The target element \<^verbatim>\<open>Pair\<close> returns for two points.\<close>

definition pairing :: "('p, 't) CurveSystem \<Rightarrow> 'p \<Rightarrow> 'p \<Rightarrow> 't" where
  "pairing curve P Q = the (fst (Pair curve (Some P) (Some Q)))"

text \<open>The pairing of a sum in its first argument is the combination of the pairings.\<close>

definition additive_pairing :: "('p, 't) CurveSystem \<Rightarrow> 'p set \<Rightarrow> 'p set \<Rightarrow> 't set \<Rightarrow> bool" where
  "additive_pairing curve G1 G2 GT \<longleftrightarrow>
     point_group curve G1 \<and> target_group curve GT
     \<and> (\<forall>P \<in> G1. \<forall>P' \<in> G1. \<forall>Q \<in> G2.
           pairing curve (padd curve P P') Q = tadd curve (pairing curve P Q) (pairing curve P' Q))"

section \<open>Two executable curves\<close>

text \<open>
  The integers as all three groups, written additively, with multiplication as the
  pairing: \<open>(a * k) * b = a * (b * k)\<close> and \<open>(a + a') * b = a * b + a' * b\<close>. Every
  operation fails (\<^verbatim>\<open>nil, false\<close>) on a \<^verbatim>\<open>nil\<close> argument.
\<close>

definition toy :: "(int, int) CurveSystem" where
  "toy = \<lparr>GetG1Order = 13, GetG2 = Some 1,
          HashToG1 = (\<lambda>m. Some (1 + int (length m))),
          Pair = (\<lambda>x y. case x of None \<Rightarrow> (None, False)
                        | Some a \<Rightarrow> (case y of None \<Rightarrow> (None, False)
                                              | Some b \<Rightarrow> (Some (a * b), True))),
          Add = (\<lambda>a y. case y of None \<Rightarrow> (None, False) | Some b \<Rightarrow> (Some (a + b), True)),
          Copy = (\<lambda>a. Some a),
          Mul = (\<lambda>a k. case k of None \<Rightarrow> None | Some n \<Rightarrow> Some (a * n)),
          AddT = (\<lambda>a y. case y of None \<Rightarrow> (None, False) | Some b \<Rightarrow> (Some (a + b), True)),
          EqualsT = (\<lambda>a y. y = Some a)\<rparr>"

text \<open>
  The same curve with points as objects: a point is a pair of an object identity and
  its value, and \<^verbatim>\<open>Copy\<close> gives the same value under another identity.
\<close>

definition tagged :: "(nat \<times> int, int) CurveSystem" where
  "tagged = \<lparr>GetG1Order = 13, GetG2 = Some (0, 1),
          HashToG1 = (\<lambda>m. Some (0, 1 + int (length m))),
          Pair = (\<lambda>x y. case x of None \<Rightarrow> (None, False)
                        | Some a \<Rightarrow> (case y of None \<Rightarrow> (None, False)
                                              | Some b \<Rightarrow> (Some (snd a * snd b), True))),
          Add = (\<lambda>a y. case y of None \<Rightarrow> (None, False)
                        | Some b \<Rightarrow> (Some (Suc (max (fst a) (fst b)), snd a + snd b), True)),
          Copy = (\<lambda>a. Some (Suc (fst a), snd a)),
          Mul = (\<lambda>a k. case k of None \<Rightarrow> None | Some n \<Rightarrow> Some (Suc (fst a), snd a * n)),
          AddT = (\<lambda>a y. case y of None \<Rightarrow> (None, False) | Some b \<Rightarrow> (Some (a + b), True)),
          EqualsT = (\<lambda>a y. y = Some a)\<rparr>"

text \<open>The messages \<^verbatim>\<open>"alice"\<close> and \<^verbatim>\<open>"bob"\<close> as bytes.\<close>

definition alice :: "byte list" where
  "alice = [0x61, 0x6C, 0x69, 0x63, 0x65]"

definition bob :: "byte list" where
  "bob = [0x62, 0x6F, 0x62]"

section \<open>Receiving from a channel\<close>

lemma recv_Nil [simp]: "recv s [] = Inl BlocksForever"
  by (simp add: recv.simps)

lemma recv_nth:
  assumes "xs \<noteq> []"
  obtains k where "k < length xs"
    and "recv s xs = Inr (xs ! k, take k xs @ drop (Suc k) xs, tl s)"
proof (cases xs)
  case Nil
  with assms show ?thesis by simp
next
  case (Cons y ys)
  define k where "k = (case s of [] \<Rightarrow> 0 | j # _ \<Rightarrow> j mod length (y # ys))"
  have "k < length xs"
    unfolding k_def Cons by (cases s) simp_all
  moreover have "recv s xs = Inr (xs ! k, take k xs @ drop (Suc k) xs, tl s)"
    unfolding Cons k_def by (simp add: Let_def recv.simps)
  ultimately show ?thesis by (rule that)
qed

lemma recv_single [simp]: "recv s [x] = Inr (x, [], tl s)"
  by (cases s) (simp_all add: recv.simps)

lemma recv_two:
  "recv s [x, y] = Inr (x, [y], tl s) \<or> recv s [x, y] = Inr (y, [x], tl s)"
proof -
  obtain k where k: "k < length [x, y]"
    and r: "recv s [x, y] = Inr ([x, y] ! k, take k [x, y] @ drop (Suc k) [x, y], tl s)"
    using recv_nth [of "[x, y]" s] by blast
  from k have "k = 0 \<or> k = 1" by auto
  then show ?thesis using r by auto
qed

lemma recv_mset:
  assumes "recv s xs = Inr (v, rest, s')"
  shows "mset xs = add_mset v (mset rest)" and "s' = tl s"
proof -
  from assms have ne: "xs \<noteq> []" by auto
  obtain k where k: "k < length xs"
    and r: "recv s xs = Inr (xs ! k, take k xs @ drop (Suc k) xs, tl s)"
    using recv_nth [OF ne, of s] by blast
  from r assms have v: "v = xs ! k" and rest: "rest = take k xs @ drop (Suc k) xs" and "s' = tl s"
    by simp_all
  then show "s' = tl s" by simp
  have "mset xs = mset (take k xs @ xs ! k # drop (Suc k) xs)"
    using id_take_nth_drop [OF k] by simp
  then show "mset xs = add_mset v (mset rest)"
    by (simp add: v rest)
qed

lemma recv_total:
  assumes "xs \<noteq> []"
  shows "\<exists>v rest. recv s xs = Inr (v, rest, tl s)"
  using recv_nth [OF assms, of s] by metis

section \<open>Duplicate messages\<close>

lemma containsDuplicateMessage_loop_iff:
  "containsDuplicateMessage_loop hashmap ms \<longleftrightarrow>
     \<not> distinct ms \<or> (\<exists>m \<in> set ms. hashmap m \<noteq> None)"
  by (induction ms arbitrary: hashmap) auto

lemma containsDuplicateMessage_iff: "containsDuplicateMessage ms \<longleftrightarrow> \<not> distinct ms"
  by (simp add: containsDuplicateMessage_def containsDuplicateMessage_loop_iff)

text \<open>
  C3. \<^verbatim>\<open>VerifyAggregateSignature\<close> returns \<^verbatim>\<open>false\<close> when the numbers of keys and of
  messages differ, and when two messages are the same bytes; in both cases it has
  started no pairing goroutine. This is so for every curve, schedule, signature and
  keys, whatever the pairing equation would give.
\<close>

theorem verify_rejects_before_pairing:
  "length ks \<noteq> length ms \<or> \<not> distinct ms \<Longrightarrow>
   VerifyAggregateSignature curve s aggsig ks ms = \<lparr>pairings = 0, outcome = Inr False\<rparr>"
  by (auto simp: VerifyAggregateSignature_def verifyAggSig_def containsDuplicateMessage_iff)

text \<open>
  Two signers of the same message \<open>[1]\<close> with secret keys 3 and 5: the aggregate 16
  satisfies the pairing equation (the duplicate-tolerant path accepts it), and the
  public entry point rejects it without a pairing.
\<close>

theorem verify_rejects_before_pairing_witness:
  "\<not> distinct [[1], [1::byte]]
   \<and> VerifyAggregateSignature toy [] (Some 16) [Some 3, Some 5] [[1], [1]]
       = \<lparr>pairings = 0, outcome = Inr False\<rparr>
   \<and> verifyAggSig toy [] (Some 16) [Some 3, Some 5] [[1], [1]] True
       = \<lparr>pairings = 3, outcome = Inr True\<rparr>
   \<and> length [Some (3::int)] \<noteq> length [[1], [2::byte]]
   \<and> VerifyAggregateSignature toy [] (Some 6) [Some 3] [[1], [2]]
       = \<lparr>pairings = 0, outcome = Inr False\<rparr>"
  using verify_rejects_before_pairing [of "[Some 3, Some (5::int)]" "[[1], [1::byte]]" toy "[]" "Some 16"]
    verify_rejects_before_pairing [of "[Some (3::int)]" "[[1], [2::byte]]" toy "[]" "Some 6"]
  by (simp add: verifyAggSig_def toy_def concurrentPair_def concurrentMsgPair_def combineLoop.simps
      recv.simps)

text \<open>
  C5. Where both pairings give a target element and the target group's \<^verbatim>\<open>Equals\<close> does
  not depend on the side it is called from, \<^verbatim>\<open>VerifySingleSignature\<close> returns, under
  every schedule, the boolean \<^verbatim>\<open>pairing(signature, G2) == pairing(HashToG1(message), publicKey)\<close>:
  \<^verbatim>\<open>true\<close> exactly when the two are equal, and no panic for a signature that fails
  the equation.
\<close>

theorem verify_single_iff:
  assumes "fst (Pair curve sg (GetG2 curve)) = Some e1"
    and "fst (Pair curve (HashToG1 curve m) pubKey) = Some e2"
    and "EqualsT curve e2 (Some e1) = EqualsT curve e1 (Some e2)"
  shows "VerifySingleSignature curve s pubKey m sg = Inr (EqualsT curve e1 (Some e2))"
  using assms recv_two [of s "Some e1" "Some e2"]
  by (auto simp: VerifySingleSignature_def VerifySingleSignatureCustHash_def
      concurrentPair_def concurrentMsgPair_def)

theorem verify_single_iff_witness:
  "fst (Pair toy (Some 14) (GetG2 toy)) = Some 14
   \<and> fst (Pair toy (HashToG1 toy [1, 2]) (Some 5)) = Some 15
   \<and> EqualsT toy 15 (Some 14) = EqualsT toy 14 (Some 15)
   \<and> VerifySingleSignature toy [1] (Some 5) [1, 2] (Some 14) = Inr False"
  using verify_single_iff [of toy "Some 14" 14 "[1, 2]" "Some 5" 15 "[1]"]
  by (simp add: toy_def)

text \<open>
  C7. With no keys and no messages the aggregate verifier starts the one pairing of the
  signature and then waits on the channel of the per-message pairings, on which nobody
  sends: the call never returns. \<^verbatim>\<open>AggSig.Verify\<close> on the zero-valued \<^verbatim>\<open>AggSig\<close> is such
  a call.
\<close>

theorem verify_empty_blocks:
  "VerifyAggregateSignature curve s aggsig [] [] = \<lparr>pairings = 1, outcome = Inl BlocksForever\<rparr>
   \<and> AggSig_Verify \<lparr>keys = [], msgs = [], sig = aggsig\<rparr> curve s
       = \<lparr>pairings = 1, outcome = Inl BlocksForever\<rparr>"
  by (simp add: AggSig_Verify_def VerifyAggregateSignature_def verifyAggSig_def
      containsDuplicateMessage_def)

text \<open>
  Without factors \<^verbatim>\<open>scalePoints\<close> returns its argument \<^verbatim>\<open>pts\<close>, the same slice with
  the same points in it, on every curve and under every schedule.
\<close>

lemma scalePoints_nil_factors: "scalePoints curve s pts None = Inr pts"
  by (simp add: scalePoints_def)

text \<open>
  C9. \<^verbatim>\<open>scalePoints(points, nil)\<close> is to return copies of the points, not aliases. On the
  curve with object identities, for the one point \<open>(0, 5)\<close>: the call without factors
  returns the object \<open>(0, 5)\<close> itself and not its copy \<open>(1, 5)\<close>, whereas the call with
  the one absent factor, which goes through \<^verbatim>\<open>concurrentScale\<close> and its \<^verbatim>\<open>key.Copy()\<close>,
  returns the copy.
\<close>

theorem scalePoints_nil_factors_alias:
  "scalePoints tagged [] (Some [Some (0, 5)]) None = Inr (Some [Some (0, 5)])
   \<and> scalePoints tagged [] (Some [Some (0, 5)]) None \<noteq> Inr (Some [Copy tagged (0, 5)])
   \<and> scalePoints tagged [] (Some [Some (0, 5)]) (Some [None]) = Inr (Some [Copy tagged (0, 5)])
   \<and> Copy tagged (0, 5) = Some (1, 5)"
  by (simp add: scalePoints_def len_def elems_def concurrentScale_def tagged_def
      scaleReceive.simps recv.simps)

section \<open>Sums in a commutative semigroup\<close>

lemma csg_closed: "comm_semigroup_on f G \<Longrightarrow> a \<in> G \<Longrightarrow> b \<in> G \<Longrightarrow> f a b \<in> G"
  unfolding comm_semigroup_on_def by blast

lemma csg_comm: "comm_semigroup_on f G \<Longrightarrow> a \<in> G \<Longrightarrow> b \<in> G \<Longrightarrow> f a b = f b a"
  unfolding comm_semigroup_on_def by blast

lemma csg_assoc:
  "comm_semigroup_on f G \<Longrightarrow> a \<in> G \<Longrightarrow> b \<in> G \<Longrightarrow> c \<in> G \<Longrightarrow> f (f a b) c = f a (f b c)"
  unfolding comm_semigroup_on_def by blast

lemma foldl_in:
  assumes "comm_semigroup_on f G" "a \<in> G" "set xs \<subseteq> G"
  shows "foldl f a xs \<in> G"
  using assms(2,3)
proof (induction xs arbitrary: a)
  case Nil
  then show ?case by simp
next
  case (Cons x xs)
  have "f a x \<in> G" using assms(1) Cons.prems by (simp add: csg_closed)
  then show ?case using Cons by simp
qed

lemma foldl_permuted:
  assumes cs: "comm_semigroup_on f G" and a: "a \<in> G" and xs: "set xs \<subseteq> G"
    and m: "mset xs = mset ys"
  shows "foldl f a xs = foldl f a ys"
proof -
  have "fold (\<lambda>x s. f s x) xs a = fold (\<lambda>x s. f s x) ys a"
  proof (rule fold_permuted_eq [where P = "\<lambda>z. z \<in> G"])
    show "mset xs = mset ys" by (rule m)
    show "a \<in> G" by (rule a)
    show "f z x \<in> G" if "x \<in> set xs" "z \<in> G" for x z
      using that cs xs by (auto intro: csg_closed)
    show "f (f z y) x = f (f z x) y" if "x \<in> set xs" "y \<in> set xs" "z \<in> G" for x y z
    proof -
      from that xs have x: "x \<in> G" and y: "y \<in> G" by auto
      have "f (f z y) x = f z (f y x)" using cs x y that(3) by (simp add: csg_assoc)
      also have "\<dots> = f z (f x y)" using csg_comm [OF cs x y] by simp
      also have "\<dots> = f (f z x) y" using cs x y that(3) by (simp add: csg_assoc)
      finally show ?thesis .
    qed
  qed
  then show ?thesis by (simp add: foldl_conv_fold)
qed

lemma group_sum_Cons: "group_sum f (x # xs) = foldl f x xs"
  by (simp add: group_sum_def)

lemma group_sum_permuted:
  assumes cs: "comm_semigroup_on f G" and xs: "set xs \<subseteq> G" and ne: "xs \<noteq> []"
    and m: "mset xs = mset ys"
  shows "group_sum f xs = group_sum f ys"
proof -
  obtain a xs' where X: "xs = a # xs'" using ne by (cases xs) auto
  obtain b ys' where Y: "ys = b # ys'" using m ne by (cases ys) auto
  have sy: "set ys \<subseteq> G" using xs m by (metis mset_eq_setD)
  show ?thesis
  proof (cases "a = b")
    case True
    then have m0: "mset xs' = mset ys'" using m X Y by simp
    have "foldl f a xs' = foldl f a ys'"
      by (rule foldl_permuted [OF cs _ _ m0]) (use xs X in auto)
    then show ?thesis using X Y True
      by (simp add: group_sum_Cons)
  next
    case False
    have bx: "b \<in> set xs'" using m X Y False
      by (metis insert_iff list.set(2) list.set_intros(1) mset_eq_setD)
    define zs where "zs = remove1 b xs'"
    have m1: "mset xs' = mset (b # zs)" using bx by (simp add: zs_def)
    have m2: "mset (a # zs) = mset ys'"
    proof -
      have "add_mset a (add_mset b (mset zs)) = add_mset b (mset ys')"
        using m X Y m1 by simp
      then show ?thesis by (simp add: add_mset_commute)
    qed
    have aG: "a \<in> G" and bG: "b \<in> G" and zG: "set zs \<subseteq> G" and xG: "set xs' \<subseteq> G"
      using xs sy X Y m1 by (auto simp: zs_def dest: notin_set_remove1)
    have "foldl f a xs' = foldl f a (b # zs)"
      by (rule foldl_permuted [OF cs aG xG m1])
    also have "\<dots> = foldl f (f b a) zs"
      using csg_comm [OF cs aG bG] by simp
    also have "\<dots> = foldl f b (a # zs)" by simp
    also have "\<dots> = foldl f b ys'"
      by (rule foldl_permuted [OF cs bG _ m2]) (use aG zG in auto)
    finally show ?thesis by (simp add: X Y group_sum_Cons)
  qed
qed

lemma foldl_pairUp:
  "comm_semigroup_on f G \<Longrightarrow> a \<in> G \<Longrightarrow> set zs \<subseteq> G \<Longrightarrow> foldl f a (pairUp f zs) = foldl f a zs"
proof (induction f zs arbitrary: a rule: pairUp.induct)
  case (1 f x y zs)
  note cs = \<open>comm_semigroup_on f G\<close>
  from 1 have a: "a \<in> G" and x: "x \<in> G" and y: "y \<in> G" and z: "set zs \<subseteq> G" by auto
  have ax: "f a x \<in> G" by (rule csg_closed [OF cs a x])
  have axy: "f (f a x) y \<in> G" by (rule csg_closed [OF cs ax y])
  have "foldl f a (pairUp f (x # y # zs)) = foldl f (f a (f x y)) (pairUp f zs)" by simp
  also have "f a (f x y) = f (f a x) y" using csg_assoc [OF cs a x y] by simp
  also have "foldl f (f (f a x) y) (pairUp f zs) = foldl f (f (f a x) y) zs"
    by (rule "1.IH" [OF cs axy z])
  finally show ?case by simp
qed simp_all

lemma pairUp_in: "comm_semigroup_on f G \<Longrightarrow> set zs \<subseteq> G \<Longrightarrow> set (pairUp f zs) \<subseteq> G"
  by (induction f zs rule: pairUp.induct) (simp_all add: csg_closed)

lemma length_pairUp: "length (pairUp f zs) = (length zs + 1) div 2"
  by (induction f zs rule: pairUp.induct) auto

lemma group_sum_pairUp:
  assumes "comm_semigroup_on f G" "set zs \<subseteq> G" "zs \<noteq> []"
  shows "group_sum f (pairUp f zs) = group_sum f zs"
proof (cases zs)
  case Nil
  with assms show ?thesis by simp
next
  case (Cons x ys)
  show ?thesis
  proof (cases ys)
    case Nil
    then show ?thesis using Cons by simp
  next
    case (Cons y ws)
    have x: "x \<in> G" and y: "y \<in> G" and w: "set ws \<subseteq> G"
      using assms(2) \<open>zs = x # ys\<close> Cons by auto
    have "foldl f (f x y) (pairUp f ws) = foldl f (f x y) ws"
      by (rule foldl_pairUp [OF assms(1) csg_closed [OF assms(1) x y] w])
    then show ?thesis using \<open>zs = x # ys\<close> Cons by (simp add: group_sum_Cons)
  qed
qed

section \<open>Point scaling\<close>

lemma sends_map_Inr: "sends (map (\<lambda>x. Inr (h x)) xs) = Inr (map h xs)"
  by (induction xs) simp_all

lemma scaleReceive_correct:
  assumes "length pending = n - i" "i \<le> n" "distinct (map index pending)"
    and "\<forall>p \<in> set pending. index p < length newKeys"
  shows "\<exists>ks. scaleReceive i n s pending newKeys = Inr ks \<and> length ks = length newKeys
           \<and> (\<forall>p \<in> set pending. ks ! index p = pt p)
           \<and> (\<forall>j. j \<notin> index ` set pending \<longrightarrow> ks ! j = newKeys ! j)"
  using assms
proof (induction i n s pending newKeys rule: scaleReceive.induct)
  case (1 i n s pending newKeys)
  show ?case
  proof (cases "i < n")
    case False
    with "1.prems" have "pending = []" by simp
    with False show ?thesis by (simp add: scaleReceive.simps)
  next
    case True
    with "1.prems" have ne: "pending \<noteq> []" by auto
    then obtain p rest where r: "recv s pending = Inr (p, rest, tl s)"
      using recv_total by blast
    have m: "mset pending = add_mset p (mset rest)"
      using recv_mset(1) [OF r] .
    then have m': "mset (map index pending) = mset (map index (p # rest))"
      by simp
    have sp: "set pending = insert p (set rest)"
      using m by (metis mset_eq_setD set_mset_add_mset_insert set_mset_mset)
    have d: "distinct (map index (p # rest))"
      using mset_eq_imp_distinct_iff [OF m'] "1.prems"(3) by blast
    have lr: "length rest = n - (i + 1)"
    proof -
      have "length pending = Suc (length rest)"
        using mset_eq_length [of pending "p # rest"] m by simp
      then show ?thesis using "1.prems"(1) by simp
    qed
    have ip: "index p < length newKeys"
      using "1.prems"(4) sp by simp
    have "\<exists>ks. scaleReceive (i + 1) n (tl s) rest (newKeys[index p := pt p]) = Inr ks
            \<and> length ks = length (newKeys[index p := pt p])
            \<and> (\<forall>q \<in> set rest. ks ! index q = pt q)
            \<and> (\<forall>j. j \<notin> index ` set rest \<longrightarrow> ks ! j = (newKeys[index p := pt p]) ! j)"
      using "1.IH" [OF True r refl refl ip lr] True d "1.prems"(4) sp by simp
    then obtain ks where ks: "scaleReceive (i + 1) n (tl s) rest (newKeys[index p := pt p]) = Inr ks"
      "length ks = length newKeys" "\<forall>q \<in> set rest. ks ! index q = pt q"
      "\<forall>j. j \<notin> index ` set rest \<longrightarrow> ks ! j = (newKeys[index p := pt p]) ! j"
      by auto
    have "scaleReceive i n s pending newKeys = Inr ks"
      using True r ip ks(1) by (subst scaleReceive.simps) simp
    moreover have "ks ! index p = pt p"
      using ks(4) d ip by auto
    moreover have "\<forall>j. j \<notin> index ` set pending \<longrightarrow> ks ! j = newKeys ! j"
      using ks(4) sp by auto
    ultimately show ?thesis
      using ks(2,3) sp by auto
  qed
qed

text \<open>
  C8. With factors present: if their number differs from the number of points the result
  is \<^verbatim>\<open>nil\<close>. Otherwise, the points being proper points, the result has the length of
  \<^verbatim>\<open>points\<close> and at every index \<open>i\<close> holds \<^verbatim>\<open>points[i].Mul(factors[i])\<close>, or
  \<^verbatim>\<open>points[i].Copy()\<close> where \<^verbatim>\<open>factors[i]\<close> is \<^verbatim>\<open>nil\<close>, under every schedule: the order
  of arrival does not show in the result.
\<close>

theorem scalePoints_factors:
  "(length fs \<noteq> len pts \<longrightarrow> scalePoints curve s pts (Some fs) = Inr None)
   \<and> (length fs = len pts \<and> elems pts = map Some ps \<longrightarrow>
        (\<exists>ks. scalePoints curve s pts (Some fs) = Inr (Some ks) \<and> length ks = len pts
           \<and> (\<forall>i < len pts. ks ! i =
                 (case fs ! i of None \<Rightarrow> Copy curve (ps ! i)
                  | Some k \<Rightarrow> Mul curve (ps ! i) (Some k)))))"
proof (intro conjI impI)
  show "scalePoints curve s pts (Some fs) = Inr None" if "length fs \<noteq> len pts"
    using that by (auto simp: scalePoints_def len_def)
next
  assume a: "length fs = len pts \<and> elems pts = map Some ps"
  define n where "n = len pts"
  have lp: "length ps = n"
    using a by (cases pts) (auto simp: n_def len_def elems_def dest: arg_cong [where f = length])
  define h where "h i = \<lparr>index = i, pt = (case fs ! i of None \<Rightarrow> Copy curve (ps ! i)
                  | Some k \<Rightarrow> Mul curve (ps ! i) (Some k))\<rparr>" for i
  have g: "map (\<lambda>i. concurrentScale curve (elems pts ! i) (elems (Some fs) ! i) i) [0..<n]
           = map (\<lambda>i. Inr (h i)) [0..<n]"
    using a lp by (auto simp: concurrentScale_def h_def elems_def split: option.splits)
  have idx: "map index (map h [0..<n]) = [0..<n]"
    by (simp add: h_def comp_def)
  have "\<exists>ks. scaleReceive 0 n s (map h [0..<n]) (replicate n None) = Inr ks
          \<and> length ks = length (replicate n (None :: 'a option))
          \<and> (\<forall>p \<in> set (map h [0..<n]). ks ! index p = pt p)
          \<and> (\<forall>j. j \<notin> index ` set (map h [0..<n]) \<longrightarrow> ks ! j = (replicate n None) ! j)"
    by (rule scaleReceive_correct) (simp_all add: idx del: map_map, simp add: h_def)
  then obtain ks where ks: "scaleReceive 0 n s (map h [0..<n]) (replicate n None) = Inr ks"
    "length ks = n" "\<forall>p \<in> set (map h [0..<n]). ks ! index p = pt p"
    by auto
  have l1: "len pts = n" and l2: "len (Some fs) = n"
    using a by (simp_all add: n_def len_def)
  have "scalePoints curve s pts (Some fs) =
          (case sends (map (\<lambda>i. concurrentScale curve (elems pts ! i) (elems (Some fs) ! i) i) [0..<n]) of
              Inl e \<Rightarrow> Inl e
            | Inr pending \<Rightarrow>
                (case scaleReceive 0 n s pending (replicate n None) of
                   Inl e \<Rightarrow> Inl e
                 | Inr ks \<Rightarrow> Inr (Some ks)))"
    by (simp add: scalePoints_def l1 l2 cong: sum.case_cong)
  then have "scalePoints curve s pts (Some fs) = Inr (Some ks)"
    by (simp only: g sends_map_Inr ks(1) sum.case)
  moreover have "\<forall>i < n. ks ! i = pt (h i)"
    using ks(3) by (auto simp: h_def)
  ultimately show "\<exists>ks. scalePoints curve s pts (Some fs) = Inr (Some ks) \<and> length ks = len pts
           \<and> (\<forall>i < len pts. ks ! i =
                 (case fs ! i of None \<Rightarrow> Copy curve (ps ! i)
                  | Some k \<Rightarrow> Mul curve (ps ! i) (Some k)))"
    using ks(2) by (auto simp: n_def h_def)
qed

theorem scalePoints_factors_witness:
  "length [Some 3, None] \<noteq> len (Some [Some 1, Some 2, Some (3::int)])
   \<and> scalePoints toy [1, 1] (Some [Some 1, Some 2, Some 3]) (Some [Some 3, None]) = Inr None
   \<and> length [Some 3, None, Some (5::int)] = len (Some [Some 1, Some 2, Some (3::int)])
   \<and> elems (Some [Some 1, Some 2, Some (3::int)]) = map Some [1, 2, 3]
   \<and> scalePoints toy [1, 1] (Some [Some 1, Some 2, Some 3]) (Some [Some 3, None, Some 5])
       = Inr (Some [Some 3, Some 2, Some 15])"
  using scalePoints_factors [of "[Some 3, None]" "Some [Some 1, Some 2, Some 3]" toy "[1, 1]" "[1, 2, 3]"]
    scalePoints_factors [of "[Some 3, None, Some 5]" "Some [Some 1, Some 2, Some 3]" toy "[1, 1]" "[1, 2, 3]"]
  by (simp add: len_def elems_def scalePoints_def concurrentScale_def toy_def scaleReceive.simps
      recv.simps upt_rec)

section \<open>Point aggregation\<close>

lemma length_goAggregate: "length (goAggregate curve i points) = (length points - i + 1) div 2"
proof (induction curve i points rule: goAggregate.induct)
  case (1 curve i points)
  show ?case
  proof (cases "i < length points")
    case True
    then have "length (goAggregate curve i points) = Suc ((length points - (i + 2) + 1) div 2)"
      using 1 by (subst goAggregate.simps) simp
    also have "\<dots> = (length points - i + 1) div 2" using True by arith
    finally show ?thesis .
  next
    case False
    then show ?thesis by (subst goAggregate.simps) simp
  qed
qed

lemma concurrentAggregatePoints_not_blocked:
  "concurrentAggregatePoints curve i points \<noteq> Inl BlocksForever"
  by (simp add: concurrentAggregatePoints_def split: option.splits)

lemma goAggregate_not_blocked: "Inl BlocksForever \<notin> set (goAggregate curve i points)"
proof (induction curve i points rule: goAggregate.induct)
  case (1 curve i points)
  show ?case
  proof (cases "i < length points")
    case True
    have "goAggregate curve i points
            = concurrentAggregatePoints curve i points # goAggregate curve (i + 2) points"
      using True by (subst goAggregate.simps) simp
    then show ?thesis
      using 1 [OF True] concurrentAggregatePoints_not_blocked [of curve i points] by auto
  next
    case False
    then show ?thesis by (subst goAggregate.simps) simp
  qed
qed

lemma sends_Inl: "sends gs = Inl e \<Longrightarrow> Inl e \<in> set gs"
  by (induction gs rule: sends.induct) (auto split: sum.splits)

lemma sends_Inr: "sends gs = Inr vs \<Longrightarrow> length vs = length gs"
  by (induction gs arbitrary: vs rule: sends.induct) (auto split: sum.splits)

lemma receiveInto_correct:
  assumes "length pending = counter - i" "i \<le> counter" "counter \<le> length arr"
  shows "\<exists>got s'. receiveInto i counter s pending arr = Inr (take i arr @ got @ drop counter arr, s')
           \<and> mset got = mset pending"
  using assms
proof (induction i counter s pending arr rule: receiveInto.induct)
  case (1 i counter s pending arr)
  show ?case
  proof (cases "i < counter")
    case False
    with "1.prems" have "pending = []" "i = counter" by simp_all
    then show ?thesis by (subst receiveInto.simps) simp
  next
    case True
    with "1.prems" have ne: "pending \<noteq> []" by auto
    then obtain v rest where r: "recv s pending = Inr (v, rest, tl s)"
      using recv_total by blast
    have m: "mset pending = add_mset v (mset rest)"
      using recv_mset(1) [OF r] .
    have lr: "length rest = counter - (i + 1)"
    proof -
      have "length pending = Suc (length rest)"
        using mset_eq_length [of pending "v # rest"] m by simp
      then show ?thesis using "1.prems"(1) by simp
    qed
    have ia: "i < length arr" using True "1.prems"(3) by simp
    have "\<exists>got s'. receiveInto (i + 1) counter (tl s) rest (arr[i := v])
              = Inr (take (i + 1) (arr[i := v]) @ got @ drop counter (arr[i := v]), s')
            \<and> mset got = mset rest"
      using "1.IH" [OF True r refl refl ia lr] True "1.prems"(3) by simp
    then obtain got s' where g: "receiveInto (i + 1) counter (tl s) rest (arr[i := v])
              = Inr (take (i + 1) (arr[i := v]) @ got @ drop counter (arr[i := v]), s')"
      and mg: "mset got = mset rest" by blast
    have t: "take (Suc i) (arr[i := v]) = take i arr @ [v]"
      using ia by (simp add: take_Suc_conv_app_nth)
    have d: "drop counter (arr[i := v]) = drop counter arr"
      using True by simp
    have "receiveInto i counter s pending arr = Inr (take i arr @ (v # got) @ drop counter arr, s')"
      using True r ia g by (subst receiveInto.simps) (simp add: t d)
    moreover have "mset (v # got) = mset pending" using m mg by simp
    ultimately show ?thesis by blast
  qed
qed

lemma aggregateRound_shape:
  "(\<exists>e. aggregateRound curve s points = Inl e \<and> e \<noteq> BlocksForever)
   \<or> (\<exists>nxt s'. aggregateRound curve s points = Inr (nxt, s')
          \<and> length nxt = (length points + 1) div 2)"
proof (cases "sends (goAggregate curve 0 points)")
  case (Inl e)
  then have "e \<noteq> BlocksForever"
    using sends_Inl goAggregate_not_blocked by metis
  then show ?thesis using Inl by (simp add: aggregateRound_def)
next
  case (Inr pending)
  define n where "n = (length points + 1) div 2"
  have lg: "length (goAggregate curve 0 points) = n"
    by (simp add: length_goAggregate n_def)
  have lp: "length pending = n" using sends_Inr [OF Inr] lg by simp
  have ln: "length points div 2 + length points mod 2 = n"
    unfolding n_def by arith
  obtain got s' where g: "receiveInto 0 n s pending (replicate n None)
        = Inr (take 0 (replicate n None) @ got @ drop n (replicate n None), s')"
    and mg: "mset got = mset pending"
    using receiveInto_correct [of pending n 0 "replicate n None" s] lp by auto
  have "aggregateRound curve s points = Inr (got, s')"
    using Inr g by (simp add: aggregateRound_def lg ln)
  moreover have "length got = n" using mg lp by (metis mset_eq_length)
  ultimately show ?thesis by (simp add: n_def)
qed

lemma aggregateLoop_terminates:
  "aggPoint \<noteq> [] \<Longrightarrow> \<exists>r. aggregateLoop curve s aggPoint = Some r \<and> r \<noteq> Inl BlocksForever"
proof (induction "length aggPoint" arbitrary: aggPoint s rule: less_induct)
  case less
  show ?case
  proof (cases "length aggPoint = 1")
    case True
    then show ?thesis by (subst aggregateLoop.simps) simp
  next
    case False
    with less.prems have l2: "2 \<le> length aggPoint"
      by (cases aggPoint) (auto simp: Suc_le_eq)
    from aggregateRound_shape [of curve s aggPoint] show ?thesis
    proof (elim disjE exE conjE)
      fix e assume "aggregateRound curve s aggPoint = Inl e" "e \<noteq> BlocksForever"
      then show ?thesis using False by (subst aggregateLoop.simps) simp
    next
      fix nxt s' assume r: "aggregateRound curve s aggPoint = Inr (nxt, s')"
        and l: "length nxt = (length aggPoint + 1) div 2"
      have "length nxt < length aggPoint" "nxt \<noteq> []" using l l2 by auto
      then have "\<exists>r. aggregateLoop curve s' nxt = Some r \<and> r \<noteq> Inl BlocksForever"
        using less.hyps by blast
      then show ?thesis using False r by (subst aggregateLoop.simps) simp
    qed
  qed
qed

lemma aggregateRound_Nil: "aggregateRound curve s [] = Inr ([], s)"
  by (simp add: aggregateRound_def goAggregate.simps receiveInto.simps)

lemma aggregateLoop_Some_nonempty:
  "aggregateLoop curve s aggPoint = Some r \<Longrightarrow> aggPoint \<noteq> []"
proof (induction rule: aggregateLoop.raw_induct [rotated 1, consumes 1])
  case (1 loop curve s aggPoint r)
  show ?case
  proof
    assume "aggPoint = []"
    with 1(2) have "loop curve s [] = Some r"
      by (simp add: aggregateRound_Nil)
    from 1(1) [OF this] show False by simp
  qed
qed

text \<open>
  C10. On a non-empty list \<^verbatim>\<open>AggregatePoints\<close> ends (with a point or, if a \<^verbatim>\<open>nil\<close> point
  is the receiver of \<^verbatim>\<open>Add\<close>, with that panic; never waiting on its channel). On the
  empty list it does not end: the first round leaves a slice of length 0, and the loop,
  which is left only at length 1, maps length 0 to length 0.
\<close>

theorem AggregatePoints_termination:
  "(points \<noteq> [] \<longrightarrow> (\<exists>r. AggregatePoints curve s points = Some r \<and> r \<noteq> Inl BlocksForever))
   \<and> AggregatePoints curve s [] = None"
proof (intro conjI impI)
  assume ne: "points \<noteq> []"
  show "\<exists>r. AggregatePoints curve s points = Some r \<and> r \<noteq> Inl BlocksForever"
  proof (cases "length points = 2")
    case True
    then show ?thesis by (simp add: AggregatePoints_def split: option.splits)
  next
    case False
    from aggregateRound_shape [of curve s points] show ?thesis
    proof (elim disjE exE conjE)
      fix e assume "aggregateRound curve s points = Inl e" "e \<noteq> BlocksForever"
      then show ?thesis using False by (simp add: AggregatePoints_def)
    next
      fix nxt s' assume r: "aggregateRound curve s points = Inr (nxt, s')"
        and l: "length nxt = (length points + 1) div 2"
      have "nxt \<noteq> []" using l ne by (cases points) auto
      then show ?thesis
        using aggregateLoop_terminates [of nxt curve s'] False r by (simp add: AggregatePoints_def)
    qed
  qed
next
  have "aggregateLoop curve s [] = None"
    using aggregateLoop_Some_nonempty [of curve s "[]"] by (cases "aggregateLoop curve s []") auto
  then show "AggregatePoints curve s [] = None"
    by (simp add: AggregatePoints_def aggregateRound_Nil)
qed

theorem AggregatePoints_termination_witness:
  "[Some 1, Some 2, Some (3::int)] \<noteq> []
   \<and> AggregatePoints toy [1, 0] [Some 1, Some 2, Some 3] = Some (Inr (Some 6))
   \<and> AggregatePoints toy [1, 0] [] = None"
proof -
  have "AggregatePoints toy [1, 0] [Some 1, Some 2, Some 3] = Some (Inr (Some 6))"
    by code_simp
  then show ?thesis
    using AggregatePoints_termination [of "[Some 1, Some 2, Some 3]" toy "[1, 0]"] by simp
qed

lemma point_group_Add:
  "point_group curve G \<Longrightarrow> a \<in> G \<Longrightarrow> b \<in> G \<Longrightarrow> fst (Add curve a (Some b)) = Some (padd curve a b)"
  unfolding point_group_def padd_def by auto

lemma point_group_csg: "point_group curve G \<Longrightarrow> comm_semigroup_on (padd curve) G"
  unfolding point_group_def by blast

lemma sends_goAggregate:
  assumes pg: "point_group curve G" and ps: "set ps \<subseteq> G"
  shows "sends (goAggregate curve i (map Some ps)) = Inr (map Some (pairUp (padd curve) (drop i ps)))"
proof (induction "length ps - i" arbitrary: i rule: less_induct)
  case less
  consider "length ps \<le> i" | "i + 1 = length ps" | "i + 1 < length ps" by linarith
  then show ?case
  proof cases
    case 1
    then show ?thesis by (subst goAggregate.simps) simp
  next
    case 2
    then have d: "drop i ps = [ps ! i]"
      by (metis Cons_nth_drop_Suc Suc_eq_plus1 drop_all lessI order_refl)
    have "goAggregate curve (i + 2) (map Some ps) = []"
      using 2 by (subst goAggregate.simps) simp
    then have "goAggregate curve i (map Some ps) = [Inr (Some (ps ! i))]"
      using 2 by (subst goAggregate.simps) (simp add: concurrentAggregatePoints_def)
    then show ?thesis by (simp add: d)
  next
    case 3
    then have d: "drop i ps = ps ! i # ps ! (i + 1) # drop (i + 2) ps"
      by (metis Cons_nth_drop_Suc Suc_eq_plus1 add_2_eq_Suc' add_lessD1)
    have a: "ps ! i \<in> G" and b: "ps ! (i + 1) \<in> G" using 3 ps by (auto simp: subset_iff)
    have c: "concurrentAggregatePoints curve i (map Some ps)
               = Inr (Some (padd curve (ps ! i) (ps ! (i + 1))))"
      using 3 point_group_Add [OF pg a b] by (simp add: concurrentAggregatePoints_def)
    have "sends (goAggregate curve (i + 2) (map Some ps))
            = Inr (map Some (pairUp (padd curve) (drop (i + 2) ps)))"
      by (rule less) (use 3 in simp)
    then show ?thesis
      using 3 c by (subst goAggregate.simps) (simp add: d)
  qed
qed

lemma aggregateRound_sum:
  assumes pg: "point_group curve G" and ps: "set ps \<subseteq> G"
  shows "\<exists>qs s'. aggregateRound curve s (map Some ps) = Inr (map Some qs, s')
           \<and> mset qs = mset (pairUp (padd curve) ps)"
proof -
  define n where "n = (length ps + 1) div 2"
  define pending where "pending = map Some (pairUp (padd curve) ps)"
  have sd: "sends (goAggregate curve 0 (map Some ps)) = Inr pending"
    using sends_goAggregate [OF pg ps, of 0] by (simp add: pending_def)
  have lg: "length (goAggregate curve 0 (map Some ps)) = n"
    by (simp add: length_goAggregate n_def)
  have lp: "length pending = n" by (simp add: pending_def length_pairUp n_def)
  have ln: "length ps div 2 + length ps mod 2 = n"
    unfolding n_def by arith
  obtain got s' where g: "receiveInto 0 n s pending (replicate n None)
        = Inr (take 0 (replicate n None) @ got @ drop n (replicate n None), s')"
    and mg: "mset got = mset pending"
    using receiveInto_correct [of pending n 0 "replicate n None" s] lp by auto
  have r: "aggregateRound curve s (map Some ps) = Inr (got, s')"
    using sd g by (simp add: aggregateRound_def lg ln)
  have "set got = set pending" using mg by (rule mset_eq_setD)
  then have "\<forall>x \<in> set got. Some (the x) = x"
    by (auto simp: pending_def)
  then have sg: "map Some (map the got) = got"
    by (simp add: map_idI)
  have "mset (map the got) = mset (pairUp (padd curve) ps)"
    using arg_cong [OF mg, of "image_mset the"] by (simp add: pending_def multiset.map_comp comp_def)
  with r sg show ?thesis by metis
qed

lemma aggregateLoop_sum:
  assumes pg: "point_group curve G"
  shows "set ps \<subseteq> G \<Longrightarrow> ps \<noteq> [] \<Longrightarrow>
         aggregateLoop curve s (map Some ps) = Some (Inr (Some (group_sum (padd curve) ps)))"
proof (induction "length ps" arbitrary: ps s rule: less_induct)
  case less
  note cs = point_group_csg [OF pg]
  show ?case
  proof (cases "length ps = 1")
    case True
    then obtain a where "ps = [a]" by (cases ps) auto
    then show ?thesis by (subst aggregateLoop.simps) (simp add: group_sum_def)
  next
    case False
    with less.prems have l2: "2 \<le> length ps"
      by (cases ps) (auto simp: Suc_le_eq)
    obtain qs s' where r: "aggregateRound curve s (map Some ps) = Inr (map Some qs, s')"
      and m: "mset qs = mset (pairUp (padd curve) ps)"
      using aggregateRound_sum [OF pg less.prems(1)] by blast
    have lq: "length qs = (length ps + 1) div 2"
      using m length_pairUp [of "padd curve" ps] by (metis mset_eq_length)
    have q1: "length qs < length ps" and q2: "qs \<noteq> []" using lq l2 by auto
    have pG: "set (pairUp (padd curve) ps) \<subseteq> G" by (rule pairUp_in [OF cs less.prems(1)])
    then have q3: "set qs \<subseteq> G" using m by (metis mset_eq_setD)
    have pn: "pairUp (padd curve) ps \<noteq> []" using q2 m by auto
    have "aggregateLoop curve s' (map Some qs) = Some (Inr (Some (group_sum (padd curve) qs)))"
      by (rule less.hyps [OF q1 q3 q2])
    also have "group_sum (padd curve) qs = group_sum (padd curve) (pairUp (padd curve) ps)"
      by (rule group_sum_permuted [OF cs pG pn m [symmetric], symmetric])
    also have "\<dots> = group_sum (padd curve) ps"
      by (rule group_sum_pairUp [OF cs less.prems])
    finally show ?thesis using False r by (subst aggregateLoop.simps) simp
  qed
qed

lemma AggregatePoints_single: "AggregatePoints curve s [p] = Some (Inr p)"
proof -
  have g: "goAggregate curve 0 [p] = [Inr p]"
    by (simp add: goAggregate.simps concurrentAggregatePoints_def)
  have "aggregateRound curve s [p] = Inr ([p], tl s)"
    by (simp add: aggregateRound_def g receiveInto.simps)
  then show ?thesis
    by (simp add: AggregatePoints_def aggregateLoop.simps)
qed

lemma AggregatePoints_group_sum:
  assumes pg: "point_group curve G" and ps: "set ps \<subseteq> G" and ne: "ps \<noteq> []"
  shows "AggregatePoints curve s (map Some ps) = Some (Inr (Some (group_sum (padd curve) ps)))"
proof (cases "length ps = 2")
  case True
  then obtain a b where ab: "ps = [a, b]"
    by (cases ps; cases "tl ps") auto
  then have "a \<in> G" "b \<in> G" using ps by auto
  then show ?thesis
    using point_group_Add [OF pg] by (simp add: AggregatePoints_def ab group_sum_def)
next
  case False
  note cs = point_group_csg [OF pg]
  obtain qs s' where r: "aggregateRound curve s (map Some ps) = Inr (map Some qs, s')"
    and m: "mset qs = mset (pairUp (padd curve) ps)"
    using aggregateRound_sum [OF pg ps] by blast
  have pG: "set (pairUp (padd curve) ps) \<subseteq> G" by (rule pairUp_in [OF cs ps])
  then have q3: "set qs \<subseteq> G" using m by (metis mset_eq_setD)
  have "length (pairUp (padd curve) ps) = (length ps + 1) div 2" by (rule length_pairUp)
  then have pn: "pairUp (padd curve) ps \<noteq> []" using ne by (cases ps) auto
  then have q2: "qs \<noteq> []" using m by auto
  have "aggregateLoop curve s' (map Some qs) = Some (Inr (Some (group_sum (padd curve) qs)))"
    by (rule aggregateLoop_sum [OF pg q3 q2])
  also have "group_sum (padd curve) qs = group_sum (padd curve) (pairUp (padd curve) ps)"
    by (rule group_sum_permuted [OF cs pG pn m [symmetric], symmetric])
  also have "\<dots> = group_sum (padd curve) ps"
    by (rule group_sum_pairUp [OF cs ps ne])
  finally show ?thesis using False r by (simp add: AggregatePoints_def)
qed

text \<open>
  C6. For a non-empty list of points of a set on which \<^verbatim>\<open>Add\<close> is a commutative
  semigroup, \<^verbatim>\<open>AggregatePoints\<close> returns, under every schedule, the sum of the list;
  every reordering of the list gives the same result under every schedule; pairing up
  neighbours with the odd element carried over does not change the sum; and a list of
  one point (\<^verbatim>\<open>nil\<close> or not) gives that point.
\<close>

theorem AggregatePoints_sum:
  assumes "point_group curve G" and "set ps \<subseteq> G" and "ps \<noteq> []"
  shows "AggregatePoints curve s (map Some ps) = Some (Inr (Some (group_sum (padd curve) ps)))
    \<and> (\<forall>qs s'. mset qs = mset ps \<longrightarrow>
          AggregatePoints curve s' (map Some qs) = AggregatePoints curve s (map Some ps))
    \<and> group_sum (padd curve) (pairUp (padd curve) ps) = group_sum (padd curve) ps
    \<and> AggregatePoints curve s [p] = Some (Inr p)"
proof (intro conjI allI impI)
  show "AggregatePoints curve s (map Some ps) = Some (Inr (Some (group_sum (padd curve) ps)))"
    by (rule AggregatePoints_group_sum [OF assms])
  show "AggregatePoints curve s' (map Some qs) = AggregatePoints curve s (map Some ps)"
    if m: "mset qs = mset ps" for qs s'
  proof -
    have q: "set qs \<subseteq> G" "qs \<noteq> []" using m assms(2,3) by (metis mset_eq_setD, auto)
    have "group_sum (padd curve) qs = group_sum (padd curve) ps"
      by (rule group_sum_permuted [OF point_group_csg [OF assms(1)] q m])
    then show ?thesis
      using AggregatePoints_group_sum [OF assms(1) q] AggregatePoints_group_sum [OF assms] by simp
  qed
  show "group_sum (padd curve) (pairUp (padd curve) ps) = group_sum (padd curve) ps"
    by (rule group_sum_pairUp [OF point_group_csg [OF assms(1)] assms(2,3)])
  show "AggregatePoints curve s [p] = Some (Inr p)"
    by (rule AggregatePoints_single)
qed

lemma toy_point_group: "point_group toy UNIV"
  by (simp add: point_group_def comm_semigroup_on_def padd_def toy_def)

theorem AggregatePoints_sum_witness:
  "point_group toy UNIV \<and> set [1, 2, 3, 4, 5] \<subseteq> (UNIV :: int set) \<and> [1, 2, 3, 4, 5 :: int] \<noteq> []
   \<and> AggregatePoints toy [1, 0, 2] (map Some [1, 2, 3, 4, 5]) = Some (Inr (Some 15))
   \<and> AggregatePoints toy [] (map Some [5, 3, 1, 2, 4]) = Some (Inr (Some 15))
   \<and> AggregatePoints toy [1, 0, 2] [Some 7] = Some (Inr (Some 7))"
proof -
  have ne: "[1, 2, 3, 4, 5 :: int] \<noteq> []" by simp
  note T = AggregatePoints_sum [OF toy_point_group subset_UNIV ne, of "[1, 0, 2]" "Some 7"]
  have g: "group_sum (padd toy) [1, 2, 3, 4, 5] = 15"
    by (simp add: group_sum_def padd_def toy_def)
  have m: "mset [5, 3, 1, 2, 4 :: int] = mset [1, 2, 3, 4, 5]" by simp
  from T have a: "AggregatePoints toy [1, 0, 2] (map Some [1, 2, 3, 4, 5]) = Some (Inr (Some 15))"
    unfolding g by (rule conjunct1)
  from T m have "AggregatePoints toy [] (map Some [5, 3, 1, 2, 4])
      = AggregatePoints toy [1, 0, 2] (map Some [1, 2, 3, 4, 5])"
    by blast
  with a have b: "AggregatePoints toy [] (map Some [5, 3, 1, 2, 4]) = Some (Inr (Some 15))"
    by simp
  from T have c: "AggregatePoints toy [1, 0, 2] [Some 7] = Some (Inr (Some 7))"
    by blast
  show ?thesis using toy_point_group a b c by simp
qed

section \<open>Aggregate verification\<close>

lemma target_group_AddT:
  "target_group curve GT \<Longrightarrow> a \<in> GT \<Longrightarrow> b \<in> GT \<Longrightarrow> fst (AddT curve a (Some b)) = Some (tadd curve a b)"
  unfolding target_group_def tadd_def by auto

lemma target_group_csg: "target_group curve GT \<Longrightarrow> comm_semigroup_on (tadd curve) GT"
  unfolding target_group_def by blast

lemma recv_map_Some:
  assumes "ts \<noteq> []"
  obtains t rest where "recv s (map Some ts) = Inr (Some t, map Some rest, tl s)"
    and "mset (t # rest) = mset ts"
proof -
  from assms have "map Some ts \<noteq> []" by simp
  then obtain k where k: "k < length (map Some ts)"
    and r: "recv s (map Some ts) = Inr (map Some ts ! k,
          take k (map Some ts) @ drop (Suc k) (map Some ts), tl s)"
    using recv_nth [of "map Some ts" s] by blast
  from k have k': "k < length ts" by simp
  have "recv s (map Some ts) = Inr (Some (ts ! k), map Some (take k ts @ drop (Suc k) ts), tl s)"
    using r k' by (simp add: take_map drop_map)
  moreover have "mset (ts ! k # take k ts @ drop (Suc k) ts) = mset ts"
    using arg_cong [OF id_take_nth_drop [OF k'], of mset] by simp
  ultimately show ?thesis by (rule that)
qed

lemma combineLoop_sum:
  assumes tg: "target_group curve GT"
  shows "a \<in> GT \<Longrightarrow> set ts \<subseteq> GT \<Longrightarrow> length ts = n - i \<Longrightarrow> i \<le> n \<Longrightarrow>
         combineLoop curve i n s (map Some ts) (Some a) = Inr (Some (foldl (tadd curve) a ts))"
proof (induction "length ts" arbitrary: ts i s a)
  case 0
  then show ?case by (subst combineLoop.simps) simp
next
  case (Suc l)
  note cs = target_group_csg [OF tg]
  from Suc.hyps(2) have ne: "ts \<noteq> []" by auto
  from Suc.hyps(2) Suc.prems have lt: "i < n" by simp
  obtain t rest where r: "recv s (map Some ts) = Inr (Some t, map Some rest, tl s)"
    and m: "mset (t # rest) = mset ts"
    using recv_map_Some [OF ne] by blast
  have st: "set (t # rest) = set ts" using m by (rule mset_eq_setD)
  then have t: "t \<in> GT" and rest: "set rest \<subseteq> GT" using Suc.prems(2) by auto
  have lr: "l = length rest"
    using mset_eq_length [OF m] Suc.hyps(2) by simp
  have at: "tadd curve a t \<in> GT" by (rule csg_closed [OF cs Suc.prems(1) t])
  have "combineLoop curve (i + 1) n (tl s) (map Some rest) (Some (tadd curve a t))
          = Inr (Some (foldl (tadd curve) (tadd curve a t) rest))"
    by (rule Suc.hyps(1) [OF lr at rest]) (use lr Suc.hyps(2) Suc.prems lt in auto)
  also have "foldl (tadd curve) (tadd curve a t) rest = foldl (tadd curve) a (t # rest)"
    by simp
  also have "\<dots> = foldl (tadd curve) a ts"
    by (rule foldl_permuted [OF cs Suc.prems(1) _ m]) (use t rest in auto)
  finally show ?case
    using lt r target_group_AddT [OF tg Suc.prems(1) t]
    by (subst combineLoop.simps) simp
qed

lemma verifyAggSig_outcome:
  assumes tg: "target_group curve GT"
    and len: "length ks = length ms" and ne: "ms \<noteq> []"
    and dup: "allowDuplicates \<or> distinct ms"
    and e1: "fst (Pair curve aggsig (GetG2 curve)) = Some e1"
    and ts: "map (\<lambda>i. fst (Pair curve (HashToG1 curve (ms ! i)) (ks ! i))) [0..<length ms] = map Some ts"
    and GT: "set ts \<subseteq> GT"
  shows "outcome (verifyAggSig curve s aggsig ks ms allowDuplicates)
           = Inr (EqualsT curve e1 (Some (group_sum (tadd curve) ts)))"
proof -
  note cs = target_group_csg [OF tg]
  have lts: "length ts = length ms"
    using arg_cong [OF ts, of length] by simp
  with ne have tne: "ts \<noteq> []" by auto
  obtain t rest where r: "recv s (map Some ts) = Inr (Some t, map Some rest, tl s)"
    and m: "mset (t # rest) = mset ts"
    using recv_map_Some [OF tne] by blast
  have st: "set (t # rest) = set ts" using m by (rule mset_eq_setD)
  then have t: "t \<in> GT" and rest: "set rest \<subseteq> GT" using GT by auto
  have lr: "length rest = length ms - 1"
    using mset_eq_length [OF m] lts by simp
  have "combineLoop curve 1 (length ms) (tl s) (map Some rest) (Some t)
          = Inr (Some (foldl (tadd curve) t rest))"
    by (rule combineLoop_sum [OF tg t rest lr]) (use ne in \<open>simp add: Suc_le_eq\<close>)
  also have "foldl (tadd curve) t rest = group_sum (tadd curve) (t # rest)"
    by (simp add: group_sum_Cons)
  also have "\<dots> = group_sum (tadd curve) ts"
    by (rule group_sum_permuted [OF cs _ _ m]) (use t rest in auto)
  finally have c: "combineLoop curve 1 (length ms) (tl s) (map Some rest) (Some t)
          = Inr (Some (group_sum (tadd curve) ts))" .
  have nd: "\<not> (\<not> allowDuplicates \<and> containsDuplicateMessage ms)"
    using dup by (simp add: containsDuplicateMessage_iff)
  have "verifyAggSig curve s aggsig ks ms allowDuplicates
          = \<lparr>pairings = 1 + length ms,
             outcome = Inr (EqualsT curve e1 (Some (group_sum (tadd curve) ts)))\<rparr>"
    unfolding verifyAggSig_def using len nd e1 r c
    by (simp add: concurrentPair_def concurrentMsgPair_def ts)
  then show ?thesis by simp
qed

text \<open>
  C4. Let the numbers of keys and messages be equal, the messages distinct, the pairing of
  the aggregate signature with the generator be a target element \<open>e1\<close>, and the pairing
  of each hashed message with its key be an element \<open>ts ! i\<close> of a set on which the target
  group's \<^verbatim>\<open>Add\<close> is a commutative semigroup. Then, under every schedule, a call that
  returns a boolean returns \<^verbatim>\<open>true\<close> exactly when \<open>e1\<close> equals the combination of the
  \<open>ts ! i\<close>, taken in any order \<open>js\<close> of the indices; and with at least one message the
  call does return.
\<close>

theorem verify_aggregate_iff:
  assumes "target_group curve GT"
    and "length ks = length ms" and "distinct ms"
    and "fst (Pair curve aggsig (GetG2 curve)) = Some e1"
    and "length ts = length ms"
    and "\<forall>i < length ms. fst (Pair curve (HashToG1 curve (ms ! i)) (ks ! i)) = Some (ts ! i)
            \<and> ts ! i \<in> GT"
    and "mset js = mset [0..<length ms]"
  shows "(ms \<noteq> [] \<longrightarrow> (\<exists>b. outcome (VerifyAggregateSignature curve s aggsig ks ms) = Inr b))
     \<and> (\<forall>b. outcome (VerifyAggregateSignature curve s aggsig ks ms) = Inr b \<longrightarrow>
           (b \<longleftrightarrow> EqualsT curve e1 (Some (group_sum (tadd curve) (map (\<lambda>i. ts ! i) js)))))"
proof -
  note cs = target_group_csg [OF assms(1)]
  have ts: "map (\<lambda>i. fst (Pair curve (HashToG1 curve (ms ! i)) (ks ! i))) [0..<length ms] = map Some ts"
  proof (rule nth_equalityI)
    show "length (map (\<lambda>i. fst (Pair curve (HashToG1 curve (ms ! i)) (ks ! i))) [0..<length ms])
            = length (map Some ts)"
      using assms(5) by simp
    show "map (\<lambda>i. fst (Pair curve (HashToG1 curve (ms ! i)) (ks ! i))) [0..<length ms] ! i
            = map Some ts ! i"
      if "i < length (map (\<lambda>i. fst (Pair curve (HashToG1 curve (ms ! i)) (ks ! i))) [0..<length ms])"
      for i
      using that assms(5,6) by simp
  qed
  have GT: "set ts \<subseteq> GT"
  proof
    fix x assume "x \<in> set ts"
    then obtain i where "i < length ts" "x = ts ! i" by (auto simp: in_set_conv_nth)
    then show "x \<in> GT" using assms(5,6) by simp
  qed
  have ts': "map (\<lambda>i. ts ! i) [0..<length ms] = ts"
    using assms(5) by (metis map_nth)
  have "mset (map (\<lambda>i. ts ! i) js) = image_mset (\<lambda>i. ts ! i) (mset js)"
    by (simp only: mset_map)
  also have "\<dots> = image_mset (\<lambda>i. ts ! i) (mset [0..<length ms])"
    by (simp only: assms(7))
  also have "\<dots> = mset (map (\<lambda>i. ts ! i) [0..<length ms])"
    by (simp only: mset_map)
  finally have mj: "mset ts = mset (map (\<lambda>i. ts ! i) js)"
    by (simp only: ts')
  show ?thesis
  proof (cases "ms = []")
    case True
    then have "outcome (VerifyAggregateSignature curve s aggsig ks ms) = Inl BlocksForever"
      using assms(2)
      by (simp add: VerifyAggregateSignature_def verifyAggSig_def containsDuplicateMessage_def)
    then show ?thesis using True by simp
  next
    case False
    then have tne: "ts \<noteq> []" using assms(5) by auto
    have "outcome (VerifyAggregateSignature curve s aggsig ks ms)
            = Inr (EqualsT curve e1 (Some (group_sum (tadd curve) ts)))"
      unfolding VerifyAggregateSignature_def
      by (rule verifyAggSig_outcome [OF assms(1,2) False _ assms(4) ts GT]) (simp add: assms(3))
    also have "group_sum (tadd curve) ts = group_sum (tadd curve) (map (\<lambda>i. ts ! i) js)"
      by (rule group_sum_permuted [OF cs GT tne mj])
    finally show ?thesis by simp
  qed
qed

lemma toy_bilinear: "bilinear_pairing toy UNIV UNIV UNIV"
  by (simp add: bilinear_pairing_def toy_def mult.assoc mult.left_commute)

lemma toy_target_group: "target_group toy UNIV"
  by (simp add: target_group_def comm_semigroup_on_def tadd_def toy_def)

lemma toy_additive: "additive_pairing toy UNIV UNIV UNIV"
  by (simp add: additive_pairing_def toy_point_group toy_target_group)
     (simp add: pairing_def padd_def tadd_def toy_def distrib_right)

theorem verify_aggregate_iff_witness:
  "target_group toy UNIV
   \<and> length [Some 3, Some (5::int)] = length [alice, bob] \<and> distinct [alice, bob]
   \<and> fst (Pair toy (Some 38) (GetG2 toy)) = Some 38
   \<and> length [18, 20 :: int] = length [alice, bob]
   \<and> fst (Pair toy (HashToG1 toy alice) (Some 3)) = Some 18
   \<and> fst (Pair toy (HashToG1 toy bob) (Some 5)) = Some 20
   \<and> mset [1, 0] = mset [0..<length [alice, bob]]
   \<and> outcome (VerifyAggregateSignature toy [1] (Some 38) [Some 3, Some 5] [alice, bob]) = Inr True
   \<and> EqualsT toy 38 (Some (group_sum (tadd toy) (map (\<lambda>i. [18, 20] ! i) [1, 0])))
   \<and> fst (Pair toy (Some 37) (GetG2 toy)) = Some 37
   \<and> outcome (VerifyAggregateSignature toy [1] (Some 37) [Some 3, Some 5] [alice, bob]) = Inr False
   \<and> \<not> EqualsT toy 37 (Some (group_sum (tadd toy) (map (\<lambda>i. [18, 20] ! i) [1, 0])))"
proof -
  have l: "length [Some 3, Some (5::int)] = length [alice, bob]" by simp
  have d: "distinct [alice, bob]" by (simp add: alice_def bob_def)
  have e: "fst (Pair toy (Some 38) (GetG2 toy)) = Some 38" by (simp add: toy_def)
  have e': "fst (Pair toy (Some 37) (GetG2 toy)) = Some 37" by (simp add: toy_def)
  have lt: "length [18, 20 :: int] = length [alice, bob]" by simp
  have p1: "fst (Pair toy (HashToG1 toy alice) (Some 3)) = Some 18"
    by (simp add: toy_def alice_def)
  have p2: "fst (Pair toy (HashToG1 toy bob) (Some 5)) = Some 20"
    by (simp add: toy_def bob_def)
  have p: "\<forall>i < length [alice, bob].
             fst (Pair toy (HashToG1 toy ([alice, bob] ! i)) ([Some 3, Some 5] ! i)) = Some ([18, 20] ! i)
             \<and> [18, 20] ! i \<in> UNIV"
    using p1 p2 by (simp add: less_Suc_eq)
  have m: "mset [1, 0] = mset [0..<length [alice, bob]]" by (simp add: upt_rec)
  have g: "group_sum (tadd toy) (map (\<lambda>i. [18, 20] ! i) [1, 0]) = 38"
    by (simp add: group_sum_def tadd_def toy_def)
  have q: "EqualsT toy 38 (Some 38)" "\<not> EqualsT toy 37 (Some 38)" by (simp_all add: toy_def)
  note T = verify_aggregate_iff [OF toy_target_group l d e lt p m, of "[1]"]
  note T' = verify_aggregate_iff [OF toy_target_group l d e' lt p m, of "[1]"]
  have n: "[alice, bob] \<noteq> []" by simp
  from T n obtain b where b: "outcome (VerifyAggregateSignature toy [1] (Some 38) [Some 3, Some 5]
      [alice, bob]) = Inr b" by blast
  with T have "b \<longleftrightarrow> EqualsT toy 38 (Some 38)" unfolding g by blast
  with b q have r: "outcome (VerifyAggregateSignature toy [1] (Some 38) [Some 3, Some 5]
      [alice, bob]) = Inr True" by simp
  from T' n obtain b' where b': "outcome (VerifyAggregateSignature toy [1] (Some 37) [Some 3, Some 5]
      [alice, bob]) = Inr b'" by blast
  with T' have "b' \<longleftrightarrow> EqualsT toy 37 (Some 38)" unfolding g by blast
  with b' q have r': "outcome (VerifyAggregateSignature toy [1] (Some 37) [Some 3, Some 5]
      [alice, bob]) = Inr False" by simp
  show ?thesis
    using toy_target_group l d e lt p1 p2 m r r' e' q unfolding g by simp
qed

section \<open>Signing, then verifying\<close>

lemma VerifySingleSignature_value:
  assumes "fst (Pair curve sg (GetG2 curve)) = Some e1"
    and "fst (Pair curve (HashToG1 curve m) pubKey) = Some e2"
    and "EqualsT curve e2 (Some e1) = EqualsT curve e1 (Some e2)"
  shows "VerifySingleSignature curve s pubKey m sg = Inr (EqualsT curve e1 (Some e2))"
  using assms recv_two [of s "Some e1" "Some e2"]
  by (auto simp: VerifySingleSignature_def VerifySingleSignatureCustHash_def
      concurrentPair_def concurrentMsgPair_def)

lemma bilinear_pairing_keys:
  assumes bp: "bilinear_pairing curve G1 G2 GT" and sk: "valid_secret_key curve sk"
  obtains g h pk sg e where "g \<in> G2" "GetG2 curve = Some g"
    and "h \<in> G1" "HashToG1 curve m = Some h"
    and "pk \<in> G2" "Mul curve g (Some sk) = Some pk"
    and "sg \<in> G1" "Mul curve h (Some sk) = Some sg"
    and "e \<in> GT" "fst (Pair curve (Some h) (Some pk)) = Some e"
    and "fst (Pair curve (Some sg) (Some g)) = Some e"
    and "EqualsT curve e (Some e)"
proof -
  obtain g where g: "g \<in> G2" "GetG2 curve = Some g"
    using bp unfolding bilinear_pairing_def by blast
  obtain h where h: "h \<in> G1" "HashToG1 curve m = Some h"
    using bp unfolding bilinear_pairing_def by blast
  obtain pk where pk: "pk \<in> G2" "Mul curve g (Some sk) = Some pk"
    using bp sk g(1) unfolding bilinear_pairing_def by blast
  obtain sg where sg: "sg \<in> G1" "Mul curve h (Some sk) = Some sg"
    using bp sk h(1) unfolding bilinear_pairing_def by blast
  obtain e where e: "e \<in> GT" "fst (Pair curve (Some h) (Some pk)) = Some e"
    using bp h(1) pk(1) unfolding bilinear_pairing_def by blast
  have "fst (Pair curve (Mul curve h (Some sk)) (Some g))
          = fst (Pair curve (Some h) (Mul curve g (Some sk)))"
    using bp sk h(1) g(1) unfolding bilinear_pairing_def by blast
  then have e': "fst (Pair curve (Some sg) (Some g)) = Some e"
    using e(2) by (simp add: pk(2) sg(2))
  have "EqualsT curve e (Some e)"
    using bp e(1) unfolding bilinear_pairing_def by blast
  with g h pk sg e e' show ?thesis by (rule that)
qed

text \<open>
  C1. On a curve with a bilinear pairing, for every valid secret key \<open>sk\<close> and every
  message \<open>m\<close>: \<^verbatim>\<open>LoadPublicKey\<close> and \<^verbatim>\<open>Sign\<close> return, and \<^verbatim>\<open>VerifySingleSignature\<close> of
  that public key, \<open>m\<close> and that signature returns \<^verbatim>\<open>true\<close> under every schedule.
\<close>

theorem sign_then_verify:
  assumes "bilinear_pairing curve G1 G2 GT" and "valid_secret_key curve sk"
  shows "\<exists>publicKey sg. LoadPublicKey curve (Some sk) = Inr publicKey
           \<and> Sign curve (Some sk) m = Inr sg
           \<and> (\<forall>s. VerifySingleSignature curve s publicKey m sg = Inr True)"
proof -
  obtain g h pk sg e where g: "GetG2 curve = Some g" and h: "HashToG1 curve m = Some h"
    and pk: "Mul curve g (Some sk) = Some pk" and sg: "Mul curve h (Some sk) = Some sg"
    and e2: "fst (Pair curve (Some h) (Some pk)) = Some e"
    and e1: "fst (Pair curve (Some sg) (Some g)) = Some e"
    and eq: "EqualsT curve e (Some e)"
    using bilinear_pairing_keys [OF assms, of m] by metis
  have "LoadPublicKey curve (Some sk) = Inr (Some pk)"
    by (simp add: LoadPublicKey_def g pk)
  moreover have "Sign curve (Some sk) m = Inr (Some sg)"
    by (simp add: Sign_def SignCustHash_def h sg)
  moreover have "VerifySingleSignature curve s (Some pk) m (Some sg) = Inr True" for s
    using VerifySingleSignature_value [of curve "Some sg" e m "Some pk" e s] e1 e2 eq
    by (simp add: g h)
  ultimately show ?thesis by blast
qed

theorem sign_then_verify_witness:
  "bilinear_pairing toy UNIV UNIV UNIV \<and> valid_secret_key toy 3
   \<and> LoadPublicKey toy (Some 3) = Inr (Some 3)
   \<and> Sign toy (Some 3) alice = Inr (Some 18)
   \<and> VerifySingleSignature toy [1] (Some 3) alice (Some 18) = Inr True"
proof -
  have v: "valid_secret_key toy 3" by (simp add: valid_secret_key_def toy_def)
  have l: "LoadPublicKey toy (Some 3) = Inr (Some 3)" by (simp add: LoadPublicKey_def toy_def)
  have s: "Sign toy (Some 3) alice = Inr (Some 18)"
    by (simp add: Sign_def SignCustHash_def toy_def alice_def)
  from sign_then_verify [OF toy_bilinear v, of alice] l s
  have "VerifySingleSignature toy [1] (Some 3) alice (Some 18) = Inr True" by auto
  with toy_bilinear v l s show ?thesis by simp
qed

text \<open>
  C2. On a curve with a bilinear pairing that is additive in its first argument, for two
  distinct messages and two valid secret keys: the two public keys and the two
  signatures are returned, \<^verbatim>\<open>AggregatePoints\<close> of the two signatures returns their
  aggregate, and \<^verbatim>\<open>VerifyAggregateSignature\<close> of the aggregate, the two keys and the two
  messages returns \<^verbatim>\<open>true\<close>, all under every schedule.
\<close>

theorem aggregate_two_signers:
  assumes bp: "bilinear_pairing curve G1 G2 GT" and ap: "additive_pairing curve G1 G2 GT"
    and sk1: "valid_secret_key curve sk1" and sk2: "valid_secret_key curve sk2"
    and ne: "m1 \<noteq> m2"
  shows "\<exists>pk1 pk2 sig1 sig2 agg.
           LoadPublicKey curve (Some sk1) = Inr pk1 \<and> LoadPublicKey curve (Some sk2) = Inr pk2
           \<and> Sign curve (Some sk1) m1 = Inr sig1 \<and> Sign curve (Some sk2) m2 = Inr sig2
           \<and> (\<forall>s. AggregatePoints curve s [sig1, sig2] = Some (Inr agg))
           \<and> (\<forall>s. outcome (VerifyAggregateSignature curve s agg [pk1, pk2] [m1, m2]) = Inr True)"
proof -
  obtain g h1 pk1 s1 t1 where g: "g \<in> G2" "GetG2 curve = Some g"
    and h1: "HashToG1 curve m1 = Some h1"
    and pk1: "Mul curve g (Some sk1) = Some pk1" and s1: "s1 \<in> G1" "Mul curve h1 (Some sk1) = Some s1"
    and t1: "t1 \<in> GT" "fst (Pair curve (Some h1) (Some pk1)) = Some t1"
      "fst (Pair curve (Some s1) (Some g)) = Some t1"
    using bilinear_pairing_keys [OF bp sk1, of m1] by metis
  obtain g' h2 pk2 s2 t2 where g': "GetG2 curve = Some g'"
    and h2: "HashToG1 curve m2 = Some h2"
    and pk2: "Mul curve g' (Some sk2) = Some pk2" and s2: "s2 \<in> G1" "Mul curve h2 (Some sk2) = Some s2"
    and t2: "t2 \<in> GT" "fst (Pair curve (Some h2) (Some pk2)) = Some t2"
      "fst (Pair curve (Some s2) (Some g')) = Some t2"
    using bilinear_pairing_keys [OF bp sk2, of m2] by metis
  have gg: "g' = g" using g(2) g' by simp
  have pg: "point_group curve G1" and tg: "target_group curve GT"
    using ap unfolding additive_pairing_def by blast+
  have add: "fst (Add curve s1 (Some s2)) = Some (padd curve s1 s2)"
    by (rule point_group_Add [OF pg s1(1) s2(1)])
  have aG: "padd curve s1 s2 \<in> G1"
    by (rule csg_closed [OF point_group_csg [OF pg] s1(1) s2(1)])
  have tt: "tadd curve t1 t2 \<in> GT"
    by (rule csg_closed [OF target_group_csg [OF tg] t1(1) t2(1)])
  obtain e where e: "fst (Pair curve (Some (padd curve s1 s2)) (Some g)) = Some e"
    using bp aG g(1) unfolding bilinear_pairing_def by blast
  have "pairing curve (padd curve s1 s2) g
          = tadd curve (pairing curve s1 g) (pairing curve s2 g)"
    using ap s1(1) s2(1) g(1) unfolding additive_pairing_def by blast
  then have e': "e = tadd curve t1 t2"
    using e t1(3) t2(3) by (simp add: pairing_def gg)
  have refl: "EqualsT curve (tadd curve t1 t2) (Some (tadd curve t1 t2))"
    using bp tt unfolding bilinear_pairing_def by blast
  have l1: "LoadPublicKey curve (Some sk1) = Inr (Some pk1)"
    by (simp add: LoadPublicKey_def g(2) pk1)
  have l2: "LoadPublicKey curve (Some sk2) = Inr (Some pk2)"
    using pk2 by (simp add: LoadPublicKey_def g(2) gg)
  have g1: "Sign curve (Some sk1) m1 = Inr (Some s1)"
    by (simp add: Sign_def SignCustHash_def h1 s1(2))
  have g2: "Sign curve (Some sk2) m2 = Inr (Some s2)"
    by (simp add: Sign_def SignCustHash_def h2 s2(2))
  have a: "AggregatePoints curve s [Some s1, Some s2] = Some (Inr (Some (padd curve s1 s2)))" for s
    by (simp add: AggregatePoints_def add)
  have v: "outcome (VerifyAggregateSignature curve s (Some (padd curve s1 s2))
                      [Some pk1, Some pk2] [m1, m2]) = Inr True" for s
  proof -
    have "outcome (verifyAggSig curve s (Some (padd curve s1 s2)) [Some pk1, Some pk2] [m1, m2] False)
            = Inr (EqualsT curve (tadd curve t1 t2) (Some (group_sum (tadd curve) [t1, t2])))"
    proof (rule verifyAggSig_outcome [OF tg])
      show "fst (Pair curve (Some (padd curve s1 s2)) (GetG2 curve)) = Some (tadd curve t1 t2)"
        using e e' by (simp add: g(2))
      show "map (\<lambda>i. fst (Pair curve (HashToG1 curve ([m1, m2] ! i)) ([Some pk1, Some pk2] ! i)))
              [0..<length [m1, m2]] = map Some [t1, t2]"
        by (simp add: h1 h2 t1(2) t2(2) upt_rec)
      show "set [t1, t2] \<subseteq> GT" using t1(1) t2(1) by simp
    qed (use ne in simp_all)
    then show ?thesis
      using refl by (simp add: VerifyAggregateSignature_def group_sum_def)
  qed
  from l1 l2 g1 g2 a v show ?thesis by blast
qed

theorem aggregate_two_signers_witness:
  "bilinear_pairing toy UNIV UNIV UNIV \<and> additive_pairing toy UNIV UNIV UNIV
   \<and> valid_secret_key toy 3 \<and> valid_secret_key toy 5 \<and> alice \<noteq> bob
   \<and> LoadPublicKey toy (Some 3) = Inr (Some 3) \<and> LoadPublicKey toy (Some 5) = Inr (Some 5)
   \<and> Sign toy (Some 3) alice = Inr (Some 18) \<and> Sign toy (Some 5) bob = Inr (Some 20)
   \<and> AggregatePoints toy [] [Some 18, Some 20] = Some (Inr (Some 38))
   \<and> outcome (VerifyAggregateSignature toy [1] (Some 38) [Some 3, Some 5] [alice, bob]) = Inr True"
proof -
  have v: "valid_secret_key toy 3" "valid_secret_key toy 5"
    by (simp_all add: valid_secret_key_def toy_def)
  have ne: "alice \<noteq> bob" by (simp add: alice_def bob_def)
  have l: "LoadPublicKey toy (Some 3) = Inr (Some 3)" "LoadPublicKey toy (Some 5) = Inr (Some 5)"
    by (simp_all add: LoadPublicKey_def toy_def)
  have s: "Sign toy (Some 3) alice = Inr (Some 18)" "Sign toy (Some 5) bob = Inr (Some 20)"
    by (simp_all add: Sign_def SignCustHash_def toy_def alice_def bob_def)
  have a: "AggregatePoints toy [] [Some 18, Some 20] = Some (Inr (Some 38))"
    by (simp add: AggregatePoints_def toy_def)
  from aggregate_two_signers [OF toy_bilinear toy_additive v ne]
  obtain pk1 pk2 sig1 sig2 agg where
    "LoadPublicKey toy (Some 3) = Inr pk1" "LoadPublicKey toy (Some 5) = Inr pk2"
    "Sign toy (Some 3) alice = Inr sig1" "Sign toy (Some 5) bob = Inr sig2"
    "\<forall>s. AggregatePoints toy s [sig1, sig2] = Some (Inr agg)"
    "\<forall>s. outcome (VerifyAggregateSignature toy s agg [pk1, pk2] [alice, bob]) = Inr True"
    by blast
  with l s a have "outcome (VerifyAggregateSignature toy [1] (Some 38) [Some 3, Some 5] [alice, bob])
      = Inr True" by auto
  with toy_bilinear toy_additive v ne l s a show ?thesis by simp
qed

end
